theory Spec2Isabelle
  imports Complex_Main
begin

section \<open>Query selection for constrained clustering: \<open>robustclust/active_learning.py\<close>\<close>

text \<open>
  The module selects pairs of points to query (FFQS, MMFFQS, ACD or uniformly random
  pairs) and labels each pair from the ground truth, with optional noise. The embedding
  keeps the function and variable names of the source. Numpy arrays are lists, floating
  point distances are rationals, and every exception the source can raise is a value.
\<close>

subsection \<open>Failures and the random source\<close>

text \<open>
  \<open>AssertionError\<close> is the \<open>assert False\<close> of the dispatch; \<open>ValueError\<close> and
  \<open>IndexError\<close> are raised by numpy (reduction of an empty array, an empty range for
  \<open>randint\<close>, an index out of bounds, a float used as an array dimension: \<open>TypeError\<close>).
  \<open>Diverges\<close> is not an exception: it is the outcome of a loop that never ends.
\<close>

datatype error = AssertionError | ValueError | IndexError | TypeError | Diverges

definition ebind :: "error + 'a \<Rightarrow> ('a \<Rightarrow> error + 'b) \<Rightarrow> error + 'b" where
  "ebind m f = (case m of Inl e \<Rightarrow> Inl e | Inr x \<Rightarrow> f x)"

primrec emap :: "('a \<Rightarrow> error + 'b) \<Rightarrow> 'a list \<Rightarrow> error + 'b list" where
  "emap f [] = Inr []"
| "emap f (x # xs) = ebind (f x) (\<lambda>y. ebind (emap f xs) (\<lambda>ys. Inr (y # ys)))"

text \<open>
  The pseudo-random generator is injected: \<open>g k\<close> is the \<open>k\<close>-th raw integer draw, and a
  position counter is threaded through the calls. \<open>np.random.randint(N)\<close> draws from
  \<open>[0, N)\<close> and raises \<open>ValueError\<close> on an empty range.
\<close>

type_synonym rng = "nat \<Rightarrow> nat"

definition randint :: "nat \<Rightarrow> rng \<Rightarrow> nat \<Rightarrow> error + (nat \<times> nat)" where
  "randint N g p = (if N = 0 then Inl ValueError else Inr (g p mod N, Suc p))"

text \<open>
  \<open>np.random.randint(0, N, (k, 2))\<close>: \<open>k\<close> rows of two draws, row by row. With
  \<open>k = 0\<close> the result is the empty array, whatever the range; otherwise an empty range
  raises.
\<close>

definition randint_pairs :: "nat \<Rightarrow> nat \<Rightarrow> rng \<Rightarrow> nat \<Rightarrow> error + (nat list list \<times> nat)" where
  "randint_pairs N k g p =
     (if k = 0 then Inr ([], p)
      else if N = 0 then Inl ValueError
      else Inr (map (\<lambda>i. [g (p + 2 * i) mod N, g (p + 2 * i + 1) mod N]) [0..<k], p + 2 * k))"

text \<open>\<open>np.random.choice(group)\<close>: one element of a non-empty array.\<close>

definition choice :: "nat list \<Rightarrow> rng \<Rightarrow> nat \<Rightarrow> error + (nat \<times> nat)" where
  "choice grp g p =
     (if grp = [] then Inl ValueError else Inr (grp ! (g p mod length grp), Suc p))"

subsection \<open>Numbers and array helpers\<close>

text \<open>
  The budget \<open>n_constraints\<close> is a Python number: the integer the caller passes, or the
  float that \<open>N/2\<close> evaluates to. Comparisons accept both; numpy accepts only an integer
  as the dimension of an array (\<open>np.zeros\<close>, the \<open>size\<close> of \<open>randint\<close> and \<open>choice\<close>) and
  raises \<open>TypeError\<close> on a float. An integer budget is taken to be non-negative.
\<close>

datatype pynum = PyInt nat | PyFloat rat

fun as_size :: "pynum \<Rightarrow> error + nat" where
  "as_size (PyInt k) = Inr k"
| "as_size (PyFloat r) = Inl TypeError"

definition idx :: "'a list \<Rightarrow> nat \<Rightarrow> error + 'a" where
  "idx xs i = (if i < length xs then Inr (xs ! i) else Inl IndexError)"

text \<open>\<open>ind[cond(v)]\<close> for \<open>ind = np.arange(N)\<close> and a vector \<open>v\<close> of length \<open>N\<close>.\<close>

definition where_ind :: "('a \<Rightarrow> bool) \<Rightarrow> 'a list \<Rightarrow> nat list" where
  "where_ind P v = filter (\<lambda>i. P (v ! i)) [0..<length v]"

text \<open>\<open>np.max\<close> of a vector of non-negative entries (the vector is never empty here).\<close>

definition maxl :: "nat list \<Rightarrow> nat" where
  "maxl v = fold max v 0"

text \<open>\<open>np.argmax\<close> and \<open>np.argmin\<close>: the first index of an extremum; an empty array raises.\<close>

fun argmax_aux :: "rat list \<Rightarrow> nat \<Rightarrow> rat \<Rightarrow> nat \<Rightarrow> nat" where
  "argmax_aux [] i b bi = bi"
| "argmax_aux (x # xs) i b bi =
     (if b < x then argmax_aux xs (Suc i) x i else argmax_aux xs (Suc i) b bi)"

definition argmax :: "rat list \<Rightarrow> error + nat" where
  "argmax xs = (case xs of [] \<Rightarrow> Inl ValueError | x # ys \<Rightarrow> Inr (argmax_aux ys 1 x 0))"

fun argmin_aux :: "rat list \<Rightarrow> nat \<Rightarrow> rat \<Rightarrow> nat \<Rightarrow> nat" where
  "argmin_aux [] i b bi = bi"
| "argmin_aux (x # xs) i b bi =
     (if x < b then argmin_aux xs (Suc i) x i else argmin_aux xs (Suc i) b bi)"

definition argmin :: "rat list \<Rightarrow> error + nat" where
  "argmin xs = (case xs of [] \<Rightarrow> Inl ValueError | x # ys \<Rightarrow> Inr (argmin_aux ys 1 x 0))"

text \<open>
  \<open>np.min(block, axis=0)\<close> and \<open>np.max(block, axis=0)\<close> on a block given as its list of
  rows: the reduction runs down each column and raises when there is no row.
\<close>

definition amin0 :: "rat list list \<Rightarrow> error + rat list" where
  "amin0 block = (case block of [] \<Rightarrow> Inl ValueError | r # rs \<Rightarrow> Inr (fold (map2 min) rs r))"

definition amax0 :: "rat list list \<Rightarrow> error + rat list" where
  "amax0 block = (case block of [] \<Rightarrow> Inl ValueError | r # rs \<Rightarrow> Inr (fold (map2 max) rs r))"

subsection \<open>The pairwise metric provider\<close>

text \<open>
  \<open>pdist_block\<close>, \<open>affinity\<close> and \<open>all_pairwise\<close> live in \<open>robustclust/utils.py\<close>, and
  \<open>pdist\<close> and \<open>AgglomerativeClustering\<close> in scipy and scikit-learn. A condensed distance
  vector is represented by the lookup it supports, \<open>pv i j\<close>.
\<close>

type_synonym pvec = "nat \<Rightarrow> nat \<Rightarrow> rat"

text \<open>
  Modelled from the spec: \<open>pdist_block\<close> of \<open>utils.py\<close>, the sub-block of distances
  between two index sets ("extraction of a distance sub-block between two index sets"),
  one row for each index of the first set.
\<close>

definition pdist_block :: "pvec \<Rightarrow> nat list \<Rightarrow> nat list \<Rightarrow> rat list list" where
  "pdist_block pv as bs = map (\<lambda>a. map (\<lambda>b. pv a b) bs) as"

text \<open>
  Modelled from the spec: \<open>all_pairwise\<close> of \<open>utils.py\<close> ("for every pair of points
  sharing a nonzero label, 1; for points with differing nonzero labels, 0; positions
  involving an unassigned (label-0) point are left at the default (0)").
\<close>

definition all_pairwise :: "nat list \<Rightarrow> nat list list" where
  "all_pairwise clus = map (\<lambda>a. map (\<lambda>b. if a \<noteq> 0 \<and> a = b then 1 else 0) clus) clus"


definition stable_argsort :: "rat list \<Rightarrow> nat list" where
  "stable_argsort xs = sort_key (\<lambda>i. xs ! i) [0..<length xs]"

text \<open>
  The collaborators that are not part of the module are parameters: \<open>pdist\<close> (which may
  raise on data it does not accept), \<open>affinity\<close>, the number of rows \<open>data.shape[0]\<close>,
  the \<open>children_\<close> array of the fitted average-linkage clustering, and \<open>np.argsort\<close>.
\<close>

record 'd provider =
  pdist :: "'d \<Rightarrow> error + pvec"
  affinity :: "pvec \<Rightarrow> pvec"
  shape0 :: "'d \<Rightarrow> nat"
  agg_children :: "'d \<Rightarrow> error + (nat \<times> nat) list"
  argsort :: "rat list \<Rightarrow> nat list"

subsection \<open>FFQS: farthest-first query search\<close>

record ffqs_state =
  nbr_label :: "nat list"
  quer_cnt :: nat
  constraint_mat :: "nat list list"
  found_all :: bool

text \<open>
  The inner \<open>while\<close> loop of FFQS: the new point is compared with the first member of
  each neighbourhood in turn, until one answers "same". The row is written only while
  \<open>quer_cnt < n_constraints\<close>; the counters advance in any case.
\<close>

function ffqs_scan ::
  "int list \<Rightarrow> nat \<Rightarrow> nat list \<Rightarrow> nat \<Rightarrow> bool \<Rightarrow> nat \<Rightarrow> nat \<Rightarrow> nat list list
     \<Rightarrow> error + (bool \<times> nat \<times> nat \<times> nat list list)" where
  "ffqs_scan labels n lab new_pt constraint nbr_cnt quer mat =
     (if \<not> constraint \<and> nbr_cnt \<le> maxl lab then
        ebind (idx (where_ind (\<lambda>x. x = nbr_cnt) lab) 0) (\<lambda>rep.
          let c = (labels ! new_pt = labels ! rep);
              mat' = (if quer < n then mat[quer := [new_pt, rep, of_bool c]] else mat)
          in ffqs_scan labels n lab new_pt c (Suc nbr_cnt) (Suc quer) mat')
      else Inr (constraint, nbr_cnt, quer, mat))"
  by pat_completeness auto
termination
  by (relation "measure (\<lambda>(labels, n, lab, new_pt, c, nbr_cnt, quer, mat). Suc (maxl lab) - nbr_cnt)")
     auto

text \<open>One pass of the outer \<open>while\<close> loop of FFQS.\<close>

definition ffqs_iter :: "pvec \<Rightarrow> int list \<Rightarrow> nat \<Rightarrow> nat \<Rightarrow> ffqs_state \<Rightarrow> error + ffqs_state" where
  "ffqs_iter pdist_vec labels n num_class s =
     (let lab = nbr_label s;
          nbr_ind = where_ind (\<lambda>x. 0 < x) lab;
          cand_ind = where_ind (\<lambda>x. x = 0) lab
      in ebind (amin0 (pdist_block pdist_vec nbr_ind cand_ind)) (\<lambda>min_dist.
         ebind (argmax min_dist) (\<lambda>far_ind.
         ebind (idx cand_ind far_ind) (\<lambda>new_pt.
         ebind (ffqs_scan labels n lab new_pt False 1 (quer_cnt s) (constraint_mat s))
           (\<lambda>(constraint, nbr_cnt, quer, mat).
              let lab' = (if constraint then lab[new_pt := nbr_cnt - 1]
                          else lab[new_pt := maxl lab + 1]);
                  unique_nbr = remdups (filter (\<lambda>x. x \<noteq> 0) lab')
              in Inr \<lparr>nbr_label = lab', quer_cnt = quer, constraint_mat = mat,
                      found_all = (if length unique_nbr = num_class then True
                                   else found_all s)\<rparr>)))))"

text \<open>Each pass labels a point that had no label, so the outer loop terminates.\<close>

lemma zeros_update:
  "i < length xs \<Longrightarrow> xs ! i = (0::nat) \<Longrightarrow> v \<noteq> 0 \<Longrightarrow>
     length (filter (\<lambda>x. x = 0) (xs[i := v])) < length (filter (\<lambda>x. x = 0) xs)"
proof (induction xs arbitrary: i)
  case Nil
  then show ?case by simp
next
  case (Cons a xs)
  show ?case
  proof (cases i)
    case 0
    with Cons.prems show ?thesis by simp
  next
    case (Suc j)
    with Cons show ?thesis by auto
  qed
qed

lemma ebind_Inr_iff [simp]: "ebind m f = Inr y \<longleftrightarrow> (\<exists>x. m = Inr x \<and> f x = Inr y)"
  by (cases m) (auto simp: ebind_def)

lemma idx_Inr_iff [simp]: "idx xs i = Inr x \<longleftrightarrow> i < length xs \<and> x = xs ! i"
  by (auto simp: idx_def)

lemma where_ind_mem [simp]: "i \<in> set (where_ind P v) \<longleftrightarrow> i < length v \<and> P (v ! i)"
  by (auto simp: where_ind_def)

lemma ffqs_scan_counts:
  "ffqs_scan labels n lab new_pt c k q m = Inr (c', k', q', m') \<Longrightarrow>
     k \<le> k' \<and> q' = q + (k' - k) \<and> length m' = length m \<and> (c' \<noteq> c \<longrightarrow> k < k')"
proof (induction labels n lab new_pt c k q m rule: ffqs_scan.induct)
  case (1 labels n lab new_pt constraint nbr_cnt quer mat)
  show ?case
  proof (cases "\<not> constraint \<and> nbr_cnt \<le> maxl lab")
    case True
    with "1.prems" obtain rep where
      rep: "idx (where_ind (\<lambda>x. x = nbr_cnt) lab) 0 = Inr rep" and
      rec: "ffqs_scan labels n lab new_pt (labels ! new_pt = labels ! rep) (Suc nbr_cnt) (Suc quer)
              (if quer < n then mat[quer := [new_pt, rep, of_bool (labels ! new_pt = labels ! rep)]] else mat)
            = Inr (c', k', q', m')"
      by (subst (asm) ffqs_scan.simps) (auto simp: Let_def simp del: ffqs_scan.simps)
    from "1.IH"[OF True refl refl rec] show ?thesis by auto
  next
    case False
    with "1.prems" show ?thesis by (subst (asm) ffqs_scan.simps) auto
  qed
qed

lemma ffqs_iterE:
  assumes "ffqs_iter pv labels n nc s = Inr s'"
  obtains new_pt c k q m where
    "new_pt < length (nbr_label s)" "nbr_label s ! new_pt = 0"
    "ffqs_scan labels n (nbr_label s) new_pt False 1 (quer_cnt s) (constraint_mat s) = Inr (c, k, q, m)"
    "s' = \<lparr>nbr_label = (if c then (nbr_label s)[new_pt := k - 1]
                          else (nbr_label s)[new_pt := maxl (nbr_label s) + 1]),
           quer_cnt = q, constraint_mat = m,
           found_all = (if length (remdups (filter (\<lambda>x. x \<noteq> 0)
                              (if c then (nbr_label s)[new_pt := k - 1]
                               else (nbr_label s)[new_pt := maxl (nbr_label s) + 1]))) = nc
                        then True else found_all s)\<rparr>"
proof -
  let ?lab = "nbr_label s"
  let ?cand = "where_ind (\<lambda>x. x = 0) ?lab"
  from assms obtain far_ind r where
    fi: "far_ind < length ?cand" and
    sc: "ffqs_scan labels n ?lab (?cand ! far_ind) False 1 (quer_cnt s) (constraint_mat s) = Inr r" and
    s': "(case r of (constraint, nbr_cnt, quer, mat) \<Rightarrow>
            Inr \<lparr>nbr_label = (if constraint then ?lab[?cand ! far_ind := nbr_cnt - 1]
                          else ?lab[?cand ! far_ind := maxl ?lab + 1]),
                 quer_cnt = quer, constraint_mat = mat,
                 found_all = (if length (remdups (filter (\<lambda>x. x \<noteq> 0)
                              (if constraint then ?lab[?cand ! far_ind := nbr_cnt - 1]
                               else ?lab[?cand ! far_ind := maxl ?lab + 1]))) = nc
                        then True else found_all s)\<rparr>) = Inr s'"
    unfolding ffqs_iter_def Let_def
    by (auto simp del: ffqs_scan.simps)
  from fi have "?cand ! far_ind \<in> set ?cand" by (rule nth_mem)
  then have np: "?cand ! far_ind < length ?lab" "?lab ! (?cand ! far_ind) = 0" by simp_all
  obtain c k q m where r: "r = (c, k, q, m)" by (cases r)
  show ?thesis
    by (rule that[OF np]) (use sc s' r in auto)
qed

lemma ffqs_iter_zeros:
  assumes "ffqs_iter pv labels n nc s = Inr s'"
  shows "length (filter (\<lambda>x. x = 0) (nbr_label s')) < length (filter (\<lambda>x. x = 0) (nbr_label s))"
proof -
  from assms obtain new_pt c k q m where
    np: "new_pt < length (nbr_label s)" "nbr_label s ! new_pt = 0" and
    sc: "ffqs_scan labels n (nbr_label s) new_pt False 1 (quer_cnt s) (constraint_mat s) = Inr (c, k, q, m)" and
    s': "nbr_label s' = (if c then (nbr_label s)[new_pt := k - 1] else (nbr_label s)[new_pt := maxl (nbr_label s) + 1])"
    by (rule ffqs_iterE) simp
  from ffqs_scan_counts[OF sc] have "c \<longrightarrow> 1 < k" by auto
  with np s' show ?thesis by (auto intro!: zeros_update)
qed

function ffqs_loop :: "pvec \<Rightarrow> int list \<Rightarrow> nat \<Rightarrow> nat \<Rightarrow> ffqs_state \<Rightarrow> error + ffqs_state" where
  "ffqs_loop pdist_vec labels n num_class s =
     (if quer_cnt s < n \<and> \<not> found_all s then
        (case ffqs_iter pdist_vec labels n num_class s of
           Inl e \<Rightarrow> Inl e
         | Inr s' \<Rightarrow> ffqs_loop pdist_vec labels n num_class s')
      else Inr s)"
  by pat_completeness auto
termination
  by (relation "measure (\<lambda>(pv, labels, n, nc, s). length (filter (\<lambda>x. x = 0) (nbr_label s)))")
     (auto simp: ffqs_iter_zeros)

text \<open>
  \<open>FFQS_run\<close> is the body of \<open>FFQS\<close> up to its \<open>return\<close>, with all local variables;
  \<open>FFQS\<close> returns \<open>constraint_mat\<close> and \<open>nbr_label\<close>.
\<close>

definition FFQS_run ::
  "pvec \<Rightarrow> int list \<Rightarrow> pynum \<Rightarrow> rng \<Rightarrow> nat \<Rightarrow> error + (ffqs_state \<times> nat)" where
  "FFQS_run pdist_vec labels n_constraints g p =
     (let num_class = length (remdups labels);
          N = length labels
      in ebind (randint N g p) (\<lambda>(seed, p').
         ebind (as_size n_constraints) (\<lambda>n.
         ebind (ffqs_loop pdist_vec labels n num_class
                  \<lparr>nbr_label = (replicate N 0)[seed := 1], quer_cnt = 0,
                   constraint_mat = replicate n [0, 0, 0], found_all = False\<rparr>)
           (\<lambda>s. Inr (s, p')))))"

definition FFQS ::
  "pvec \<Rightarrow> int list \<Rightarrow> pynum \<Rightarrow> rng \<Rightarrow> nat \<Rightarrow> error + ((nat list list \<times> nat list) \<times> nat)" where
  "FFQS pdist_vec labels n_constraints g p =
     ebind (FFQS_run pdist_vec labels n_constraints g p)
       (\<lambda>(s, p'). Inr ((constraint_mat s, nbr_label s), p'))"

subsection \<open>MMFFQS: minimax farthest-first query search\<close>

record mmffqs_state =
  clus_label :: "nat list"
  query_cnt :: nat
  mm_constraint_mat :: "nat list list"
  skeleton_ind :: "nat list"
  rng_pos :: nat

text \<open>
  The first \<open>for\<close> loop of a pass, for one cluster \<open>c = clus[k]\<close>: the member of the
  cluster with the largest affinity to \<open>q\<close>, and that affinity.
\<close>

definition best_in_clus :: "pvec \<Rightarrow> nat \<Rightarrow> nat list \<Rightarrow> nat \<Rightarrow> error + (rat \<times> nat)" where
  "best_in_clus paff_vec q cl c =
     (let ind_k = where_ind (\<lambda>x. x = c) cl;
          blk = concat (pdist_block paff_vec [q] ind_k)
      in ebind (argmax blk) (\<lambda>sim_ind.
         ebind (idx blk sim_ind) (\<lambda>sv.
         ebind (idx ind_k sim_ind) (\<lambda>iv. Inr (sv, iv)))))"

text \<open>
  The second \<open>for\<close> loop of a pass: \<open>k\<close> is the loop index and the list holds
  \<open>ind_vec[k:]\<close>. The loop reads \<open>ind_vec[k]\<close> for every \<open>k < num_clus\<close> that it reaches,
  which raises when \<open>ind_vec\<close> is too short. The test \<open>k == num_clus\<close> is kept as the
  source has it.
\<close>

fun mmffqs_query ::
  "int list \<Rightarrow> nat \<Rightarrow> nat list \<Rightarrow> nat \<Rightarrow> nat list \<Rightarrow> nat \<Rightarrow> nat list \<times> nat \<times> nat list list
     \<Rightarrow> error + (nat list \<times> nat \<times> nat list list)" where
  "mmffqs_query labels n clus q [] k st = (if k < length clus then Inl IndexError else Inr st)"
| "mmffqs_query labels n clus q (r # rs) k (cl, qc, mat) =
     (let link = (labels ! q = labels ! r)
      in if length mat \<le> qc then Inl IndexError
         else let mat' = mat[qc := [q, r, of_bool link]];
                  qc' = Suc qc
              in if link then Inr (cl[q := cl ! r], qc', mat')
                 else let cl' = (if k = length clus then cl[q := maxl clus + 1] else cl)
                      in if qc' = n then Inr (cl', qc', mat')
                         else mmffqs_query labels n clus q rs (Suc k) (cl', qc', mat'))"

text \<open>
  One pass of the \<open>while\<close> loop of MMFFQS. \<open>ind_vec[sort_ind]\<close> raises on an index out
  of bounds; the query loop reads the first \<open>num_clus\<close> entries of the result.
\<close>

definition mmffqs_iter ::
  "pvec \<Rightarrow> (rat list \<Rightarrow> nat list) \<Rightarrow> int list \<Rightarrow> nat \<Rightarrow> nat list \<Rightarrow> rng \<Rightarrow> mmffqs_state
     \<Rightarrow> error + mmffqs_state" where
  "mmffqs_iter paff_vec srt labels n clus g s =
     (let N = length labels;
          all_ind = [0..<N];
          candidate_ind = filter (\<lambda>i. i \<notin> set (skeleton_ind s)) all_ind
      in ebind (if candidate_ind \<noteq> [] then
                  ebind (amax0 (pdist_block paff_vec (skeleton_ind s) candidate_ind)) (\<lambda>cand_sim.
                  ebind (argmin cand_sim) (\<lambda>q_ind.
                  ebind (idx candidate_ind q_ind) (\<lambda>q. Inr (q, rng_pos s))))
                else randint N g (rng_pos s)) (\<lambda>(q, p').
         ebind (emap (best_in_clus paff_vec q (clus_label s)) clus) (\<lambda>best.
           let sim_vec = map fst best;
               ind_vec = map snd best;
               sort_ind = srt (map uminus sim_vec)
           in ebind (emap (idx ind_vec) sort_ind) (\<lambda>ind_vec'.
              ebind (mmffqs_query labels n clus q (take (length clus) ind_vec') 0
                       (clus_label s, query_cnt s, mm_constraint_mat s)) (\<lambda>(cl, qc, mat).
                Inr \<lparr>clus_label = cl, query_cnt = qc, mm_constraint_mat = mat,
                     skeleton_ind = skeleton_ind s @ [q], rng_pos = p'\<rparr>)))))"

text \<open>
  The \<open>while\<close> loop of MMFFQS. A pass that returns without having issued a query leaves
  \<open>query_cnt\<close> and \<open>clus\<close> as they were (this happens exactly when \<open>clus\<close> is empty, so
  that both \<open>for\<close> loops are skipped); every later pass then does the same and the loop
  never ends. As \<open>MMFFQS\<close> calls the loop this does not happen (lemma \<open>ends_MMFFQS\<close>).
\<close>

function mmffqs_loop ::
  "pvec \<Rightarrow> (rat list \<Rightarrow> nat list) \<Rightarrow> int list \<Rightarrow> nat \<Rightarrow> nat list \<Rightarrow> rng \<Rightarrow> mmffqs_state
     \<Rightarrow> error + mmffqs_state" where
  "mmffqs_loop paff_vec srt labels n clus g s =
     (if query_cnt s < n then
        (case mmffqs_iter paff_vec srt labels n clus g s of
           Inl e \<Rightarrow> Inl e
         | Inr s' \<Rightarrow> if query_cnt s < query_cnt s' then mmffqs_loop paff_vec srt labels n clus g s'
                     else Inl Diverges)
      else Inr s)"
  by pat_completeness auto
termination
  by (relation "measure (\<lambda>(pv, srt, labels, n, clus, g, s). n - query_cnt s)") auto

text \<open>
  \<open>MMFFQS\<close>. Once \<open>FFQS\<close> has returned, the budget is an integer (it has been the
  dimension of \<open>constraint_mat\<close>), so \<open>as_size\<close> does not fail here.
\<close>

definition MMFFQS ::
  "(pvec \<Rightarrow> pvec) \<Rightarrow> (rat list \<Rightarrow> nat list) \<Rightarrow> pvec \<Rightarrow> int list \<Rightarrow> pynum \<Rightarrow> rng \<Rightarrow> nat
     \<Rightarrow> error + ((nat list list \<times> nat list) \<times> nat)" where
  "MMFFQS aff srt pdist_vec labels n_constraints g p =
     (let paff_vec = aff pdist_vec
      in ebind (FFQS pdist_vec labels n_constraints g p) (\<lambda>((cmat, cl), p').
         ebind (as_size n_constraints) (\<lambda>n.
           let explore_constraints = map (take 2) (filter (\<lambda>r. r ! 0 \<noteq> 0) cmat);
               skeleton = sort (remdups (concat explore_constraints));
               clus = sort (remdups (filter (\<lambda>x. x \<noteq> 0) cl))
           in ebind (mmffqs_loop paff_vec srt labels n clus g
                       \<lparr>clus_label = cl, query_cnt = length explore_constraints,
                        mm_constraint_mat = cmat, skeleton_ind = skeleton, rng_pos = p'\<rparr>)
                (\<lambda>s. Inr ((map (take 2) (mm_constraint_mat s), clus_label s), rng_pos s)))))"

subsection \<open>ACD: active class discovery\<close>

text \<open>
  The loop over the merges of the fitted tree: \<open>clus_mem\<close> lists the members of every
  node, \<open>merge_history\<close> the two sides of every merge and \<open>merge_size\<close> the size of the
  smaller side.
\<close>

primrec acd_merges ::
  "(nat \<times> nat) list \<Rightarrow> nat list \<Rightarrow> nat list list \<times> (nat list \<times> nat list) list \<times> nat list
     \<Rightarrow> error + (nat list list \<times> (nat list \<times> nat list) list \<times> nat list)" where
  "acd_merges children [] st = Inr st"
| "acd_merges children (i # is) st =
     (case st of (clus_mem, merge_history, merge_size) \<Rightarrow>
        ebind (idx children i) (\<lambda>(group1, group2).
        ebind (idx clus_mem group1) (\<lambda>m1.
        ebind (idx clus_mem group2) (\<lambda>m2.
          acd_merges children is
            (clus_mem @ [m1 @ m2], merge_history @ [(m1, m2)],
             merge_size[i := min (length m1) (length m2)])))))"

text \<open>The loop over \<open>enumerate(select_idx)\<close>: one random member of each side.\<close>

fun acd_fill ::
  "(nat list \<times> nat list) list \<Rightarrow> rng \<Rightarrow> nat list \<Rightarrow> nat \<Rightarrow> nat list list \<Rightarrow> nat
     \<Rightarrow> error + (nat list list \<times> nat)" where
  "acd_fill merge_history g [] i query_mat p = Inr (query_mat, p)"
| "acd_fill merge_history g (ix # rest) i query_mat p =
     ebind (idx merge_history ix) (\<lambda>(group1, group2).
     ebind (choice group1 g p) (\<lambda>(a, p1).
     ebind (choice group2 g p1) (\<lambda>(b, p2).
       acd_fill merge_history g rest (Suc i) (query_mat[i := [a, b]]) p2)))"

text \<open>
  \<open>select_idx\<close> after \<open>np.argsort(-merge_size)\<close>, the optional \<open>min_samples\<close> filter and
  the cut to \<open>n_constraints\<close> entries.
\<close>

definition acd_select :: "(rat list \<Rightarrow> nat list) \<Rightarrow> nat list \<Rightarrow> nat option \<Rightarrow> nat \<Rightarrow> nat list" where
  "acd_select srt merge_size min_samples n =
     (let select_idx = srt (map (\<lambda>m. - rat_of_nat m) merge_size);
          select_idx = (case min_samples of None \<Rightarrow> select_idx
                        | Some ms \<Rightarrow> filter (\<lambda>i. ms \<le> merge_size ! i) select_idx)
      in take n select_idx)"

text \<open>
  \<open>active_class_discovery\<close>. \<open>np.zeros(N-1)\<close> raises when \<open>N = 0\<close>; the budget is first
  used as a dimension by \<open>np.zeros((n_constraints, 2))\<close>, after the merge loop.
\<close>

definition active_class_discovery ::
  "'d provider \<Rightarrow> 'd \<Rightarrow> pynum \<Rightarrow> nat option \<Rightarrow> rng \<Rightarrow> nat \<Rightarrow> error + (nat list list \<times> nat)" where
  "active_class_discovery P data n_constraints min_samples g p =
     (let N = shape0 P data
      in ebind (agg_children P data) (\<lambda>children.
         if N = 0 then Inl ValueError
         else ebind (acd_merges children [0..<N - 1]
                       (map (\<lambda>x. [x]) [0..<N], [], replicate (N - 1) 0))
           (\<lambda>(clus_mem, merge_history, merge_size).
              ebind (as_size n_constraints) (\<lambda>n.
              let select_idx = acd_select (argsort P) merge_size min_samples n
              in ebind (acd_fill merge_history g select_idx 0 (replicate n [0, 0]) p)
                   (\<lambda>(query_mat, p').
                      if length select_idx < n then
                        ebind (randint_pairs N (n - length select_idx) g p') (\<lambda>(pairs, p'').
                          Inr (take (length select_idx) query_mat @ pairs, p''))
                      else Inr (query_mat, p'))))))"

subsection \<open>The constraint assembler\<close>

text \<open>\<open>labels[query_mat[:,0]] == labels[query_mat[:,1]]\<close> for one row, as 0 or 1.\<close>

definition true_link :: "int list \<Rightarrow> nat list \<Rightarrow> error + nat" where
  "true_link labels row =
     ebind (idx row 0) (\<lambda>i.
     ebind (idx row 1) (\<lambda>j.
     ebind (idx labels i) (\<lambda>li.
     ebind (idx labels j) (\<lambda>lj. Inr (of_bool (li = lj))))))"

text \<open>
  \<open>np.random.choice(2, n, p=[1 - err_rate, err_rate]).astype('bool')\<close>: numpy rejects
  probabilities outside \<open>[0, 1]\<close> and otherwise inverts the cumulative distribution
  \<open>[1 - err_rate, 1]\<close> at \<open>n\<close> uniform draws \<open>u k\<close> from \<open>[0, 1)\<close>.
\<close>

definition error_choice :: "nat \<Rightarrow> rat \<Rightarrow> (nat \<Rightarrow> rat) \<Rightarrow> error + bool list" where
  "error_choice n err_rate u =
     (if err_rate < 0 \<or> 1 < err_rate then Inl ValueError
      else Inr (map (\<lambda>k. 1 - err_rate \<le> u k) [0..<n]))"

text \<open>The inversion \<open>2 - np.power(2, link)\<close>.\<close>

definition flip :: "nat \<Rightarrow> nat" where
  "flip link = 2 - 2 ^ link"

text \<open>
  The \<open>if\<close>/\<open>elif\<close> chain of \<open>get_constraints\<close>: the strategy named by \<open>method\<close> gives
  \<open>query_mat\<close> and \<open>big_constraint_mat\<close>. The keyword arguments are the \<open>min_samples\<close> of
  ACD.
\<close>

definition dispatch ::
  "'d provider \<Rightarrow> 'd \<Rightarrow> int list \<Rightarrow> string \<Rightarrow> pynum \<Rightarrow> nat option \<Rightarrow> rng \<Rightarrow> pvec
     \<Rightarrow> error + (nat list list \<times> nat list list option)" where
  "dispatch P data labels method n_constraints min_samples g pdist_vec =
     (let N = length labels
      in if method = ''acd'' then
           ebind (active_class_discovery P data n_constraints min_samples g 0)
             (\<lambda>(query_mat, p). Inr (query_mat, None))
         else if method = ''mmffqs'' then
           ebind (MMFFQS (affinity P) (argsort P) pdist_vec labels n_constraints g 0)
             (\<lambda>((query_mat, cl), p). Inr (query_mat, Some (all_pairwise cl)))
         else if method = ''ffqs'' then
           ebind (FFQS pdist_vec labels n_constraints g 0)
             (\<lambda>((query_mat, cl), p). Inr (query_mat, Some (all_pairwise cl)))
         else if method = ''rand'' then
           ebind (as_size n_constraints) (\<lambda>n.
           ebind (randint_pairs N n g 0) (\<lambda>(query_mat, p). Inr (query_mat, None)))
         else Inl AssertionError)"

text \<open>
  \<open>get_constraints\<close>. The default budget \<open>N/2\<close> is the true division of Python 3, a
  float. After a strategy has returned the budget is an integer, so the last \<open>as_size\<close>
  does not fail. \<open>u k\<close> is the \<open>k\<close>-th uniform draw of the noise.
\<close>

definition get_constraints ::
  "'d provider \<Rightarrow> 'd \<Rightarrow> int list \<Rightarrow> string \<Rightarrow> nat option \<Rightarrow> rat \<Rightarrow> nat option \<Rightarrow> rng \<Rightarrow> (nat \<Rightarrow> rat)
     \<Rightarrow> error + (nat list list \<times> nat list list option)" where
  "get_constraints P data labels method n_constraints err_rate min_samples g u =
     (let N = length labels
      in ebind (pdist P data) (\<lambda>pdist_vec.
         let n_constraints = (case n_constraints of None \<Rightarrow> PyFloat (rat_of_nat N / 2)
                              | Some k \<Rightarrow> PyInt k)
         in ebind (dispatch P data labels method n_constraints min_samples g pdist_vec)
              (\<lambda>(query_mat, big_constraint_mat).
                 ebind (emap (true_link labels) query_mat) (\<lambda>link.
                 ebind (as_size n_constraints) (\<lambda>n.
                 ebind (error_choice n err_rate u) (\<lambda>error_ind.
                   if length error_ind \<noteq> length link then Inl IndexError
                   else let link' = map2 (\<lambda>l e. if e then flip l else l) link error_ind;
                            constraint_mat = map2 (\<lambda>r l. r @ [l]) query_mat link'
                        in Inr (constraint_mat, big_constraint_mat)))))))"

subsection \<open>A concrete provider\<close>

text \<open>
  Points on a line: the distance is the absolute difference, the affinity is
  \<open>1 / (1 + d)\<close>, the merge tree is given with the data, and the sort is stable.
\<close>

definition line_dist :: "rat list \<Rightarrow> pvec" where
  "line_dist xs = (\<lambda>i j. \<bar>xs ! i - xs ! j\<bar>)"

definition line_provider :: "(rat list \<times> (nat \<times> nat) list) provider" where
  "line_provider =
     \<lparr>pdist = (\<lambda>(xs, tree). Inr (line_dist xs)),
      affinity = (\<lambda>pv i j. 1 / (1 + pv i j)),
      shape0 = (\<lambda>(xs, tree). length xs),
      agg_children = (\<lambda>(xs, tree). Inr tree),
      argsort = stable_argsort\<rparr>"

text \<open>A provider whose \<open>pdist\<close> rejects the data (scipy raises \<open>ValueError\<close>).\<close>

definition rejecting_provider :: "(rat list \<times> (nat \<times> nat) list) provider" where
  "rejecting_provider = line_provider\<lparr>pdist := (\<lambda>d. Inl ValueError)\<rparr>"

subsection \<open>Predicates on neighbourhood labels\<close>

text \<open>
  A label vector is class-pure when two points with the same nonzero neighbourhood label
  have the same true label.
\<close>

definition class_pure :: "int list \<Rightarrow> nat list \<Rightarrow> bool" where
  "class_pure labels lab =
     list_all (\<lambda>i. list_all (\<lambda>j. lab ! i = lab ! j \<and> lab ! i \<noteq> 0 \<longrightarrow> labels ! i = labels ! j)
                      [0..<length lab])
       [0..<length lab]"


subsection \<open>Predicates on the state of FFQS and on outcomes\<close>


text \<open>
  The number of neighbourhoods: there is always a labelled point, so every pass issues
  at least one query, and it opens at most one neighbourhood.
\<close>

definition nbr_bound :: "nat \<Rightarrow> ffqs_state \<Rightarrow> bool" where
  "nbr_bound n s \<longleftrightarrow>
     1 \<le> maxl (nbr_label s) \<and> card (set (nbr_label s) - {0}) \<le> Suc (min (quer_cnt s) n)"


text \<open>
  \<open>ends m\<close>: the computation \<open>m\<close> returns a value or raises an exception. None of the
  strategies can loop for ever.
\<close>

definition ends :: "error + 'a \<Rightarrow> bool" where
  "ends m \<longleftrightarrow> m \<noteq> Inl Diverges"

section \<open>Properties\<close>

subsection \<open>Basic facts about the helpers\<close>

lemma emap_Inr:
  "emap f xs = Inr ys \<Longrightarrow> length ys = length xs \<and> (\<forall>i<length xs. f (xs ! i) = Inr (ys ! i))"
proof (induction xs arbitrary: ys)
  case Nil
  then show ?case by simp
next
  case (Cons x xs)
  from Cons.prems obtain y ys' where y: "f x = Inr y" and ys': "emap f xs = Inr ys'" and ys: "ys = y # ys'"
    by auto
  from Cons.IH[OF ys'] y ys show ?case by (auto simp: nth_Cons split: nat.splits)
qed

lemma emap_total:
  "(\<And>x. x \<in> set xs \<Longrightarrow> \<exists>y. f x = Inr y) \<Longrightarrow> \<exists>ys. emap f xs = Inr ys"
proof (induction xs)
  case Nil
  then show ?case by simp
next
  case (Cons x xs)
  then obtain y ys where "f x = Inr y" "emap f xs = Inr ys" by (meson list.set_intros)
  then show ?case by (simp add: ebind_def)
qed

lemma true_link_Inr:
  assumes "true_link labels row = Inr t"
  shows "2 \<le> length row" "row ! 0 < length labels" "row ! 1 < length labels"
    "t = (if labels ! (row ! 0) = labels ! (row ! 1) then 1 else 0)"
  using assms by (auto simp: true_link_def)


lemma error_choice_length: "error_choice n e u = Inr xs \<Longrightarrow> length xs = n"
  by (auto simp: error_choice_def split: if_splits)

lemma error_choice_nth:
  "error_choice n e u = Inr xs \<Longrightarrow> i < n \<Longrightarrow> xs ! i = (1 - e \<le> u i)"
  by (auto simp: error_choice_def split: if_splits)

lemma flip_values: "flip 0 = 1" "flip 1 = 0" "flip (Suc 0) = 0"
  by (simp_all add: flip_def)

text \<open>What a returning call of \<open>get_constraints\<close> has computed.\<close>

lemma get_constraintsE:
  assumes "get_constraints P data labels method nc err_rate ms g u = Inr (cm, big)"
  obtains pv b query_mat link n error_ind where
    "pdist P data = Inr pv"
    "b = (case nc of None \<Rightarrow> PyFloat (rat_of_nat (length labels) / 2) | Some k \<Rightarrow> PyInt k)"
    "dispatch P data labels method b ms g pv = Inr (query_mat, big)"
    "emap (true_link labels) query_mat = Inr link"
    "as_size b = Inr n"
    "error_choice n err_rate u = Inr error_ind"
    "length error_ind = length link"
    "cm = map2 (\<lambda>r l. r @ [l]) query_mat (map2 (\<lambda>l e. if e then flip l else l) link error_ind)"
  using assms unfolding get_constraints_def Let_def
  by (auto split: if_splits)

lemma get_constraints_rows:
  assumes "get_constraints P data labels method nc err_rate ms g u = Inr (cm, big)"
    and "row \<in> set cm"
  obtains i qrow t e where
    "row = qrow @ [if e then flip t else t]"
    "true_link labels qrow = Inr t"
    "e = (1 - err_rate \<le> u i)"
proof -
  from assms(1) obtain query_mat link n error_ind where
    l: "emap (true_link labels) query_mat = Inr link" and
    ec: "error_choice n err_rate u = Inr error_ind" and
    len: "length error_ind = length link" and
    cm: "cm = map2 (\<lambda>r l. r @ [l]) query_mat (map2 (\<lambda>l e. if e then flip l else l) link error_ind)"
    by (rule get_constraintsE)
  from emap_Inr[OF l] have ll: "length link = length query_mat"
    and tl: "\<And>i. i < length query_mat \<Longrightarrow> true_link labels (query_mat ! i) = Inr (link ! i)"
    by auto
  from assms(2) cm ll len obtain i where i: "i < length query_mat"
    and row: "row = query_mat ! i @ [if error_ind ! i then flip (link ! i) else link ! i]"
    by (auto simp: set_zip)
  from error_choice_length[OF ec] len ll i have "i < n" by simp
  from error_choice_nth[OF ec this] have "error_ind ! i = (1 - err_rate \<le> u i)" .
  with row tl[OF i] show ?thesis by (rule_tac that) auto
qed

lemma get_constraints_length:
  assumes "get_constraints P data labels method nc err_rate ms g u = Inr (cm, big)"
  obtains pv b n query_mat where
    "b = (case nc of None \<Rightarrow> PyFloat (rat_of_nat (length labels) / 2) | Some k \<Rightarrow> PyInt k)"
    "as_size b = Inr n" "length cm = n" "length query_mat = n"
    "pdist P data = Inr pv"
    "dispatch P data labels method b ms g pv = Inr (query_mat, big)"
proof -
  from assms obtain pv b query_mat link n error_ind where
    pv: "pdist P data = Inr pv" and
    b: "b = (case nc of None \<Rightarrow> PyFloat (rat_of_nat (length labels) / 2) | Some k \<Rightarrow> PyInt k)" and
    d: "dispatch P data labels method b ms g pv = Inr (query_mat, big)" and
    l: "emap (true_link labels) query_mat = Inr link" and
    n: "as_size b = Inr n" and
    ec: "error_choice n err_rate u = Inr error_ind" and
    len: "length error_ind = length link" and
    cm: "cm = map2 (\<lambda>r l. r @ [l]) query_mat (map2 (\<lambda>l e. if e then flip l else l) link error_ind)"
    by (rule get_constraintsE)
  from emap_Inr[OF l] have ll: "length link = length query_mat" by simp
  from error_choice_length[OF ec] len ll cm have "length cm = n" "length query_mat = n" by auto
  with b n pv d show ?thesis by (rule_tac that)
qed

subsection \<open>The assembler\<close>

text \<open>
  Claim C2. The inversion \<open>2 - 2^link\<close> is the complement \<open>1 - link\<close> on \<open>{0, 1}\<close>. When the
  uniform draws of the noise lie in \<open>[0, 1)\<close>, every row that \<open>get_constraints\<close> returns
  names two valid points, and its last entry is the true relation
  \<open>labels[i] == labels[j]\<close> of the pair for \<open>err_rate = 0\<close> and the complement of that
  relation for \<open>err_rate = 1\<close>.
\<close>

theorem get_constraints_links:
  assumes u: "\<forall>k. 0 \<le> u k \<and> u k < 1"
    and e: "err_rate = 0 \<or> err_rate = 1"
    and r: "get_constraints P data labels method nc err_rate ms g u = Inr (cm, big)"
    and m: "row \<in> set cm"
  shows "flip 0 = 1 - 0 \<and> flip 1 = 1 - 1 \<and>
         row ! 0 < length labels \<and> row ! 1 < length labels \<and>
         last row = (if (labels ! (row ! 0) = labels ! (row ! 1)) = (err_rate = 0) then 1 else 0)"
proof -
  from r m obtain i qrow t e where
    row: "row = qrow @ [if e then flip t else t]" and
    tl: "true_link labels qrow = Inr t" and
    e': "e = (1 - err_rate \<le> u i)"
    by (rule get_constraints_rows)
  note q = true_link_Inr[OF tl]
  from q(1) have "0 < length qrow" and "1 < length qrow" by auto
  with row have r0: "row ! 0 = qrow ! 0" and r1: "row ! 1 = qrow ! 1"
    by (simp_all add: nth_append)
  from u have ui: "0 \<le> u i" "u i < 1" by simp_all
  from e have lst: "last row = (if (labels ! (qrow ! 0) = labels ! (qrow ! 1)) = (err_rate = 0) then 1 else 0)"
  proof
    assume "err_rate = 0"
    with e' ui have "\<not> e" by simp
    with row q(4) \<open>err_rate = 0\<close> show ?thesis by simp
  next
    assume "err_rate = 1"
    with e' ui have "e" by simp
    with row q(4) \<open>err_rate = 1\<close> show ?thesis by (simp add: flip_values)
  qed
  with q r0 r1 show ?thesis by (simp add: flip_values)
qed

theorem get_constraints_links_witness:
  "get_constraints line_provider ([0, 1], []) [0, 1] ''rand'' (Some 1) 0 None (\<lambda>k. k) (\<lambda>k. 0)
     = Inr ([[0, 1, 0]], None) \<and>
   get_constraints line_provider ([0, 1], []) [0, 1] ''rand'' (Some 1) 1 None (\<lambda>k. k) (\<lambda>k. 0)
     = Inr ([[0, 1, 1]], None) \<and>
   last [0, 1, 0 :: nat] = (if ([0, 1 :: int] ! ([0, 1, 0] ! 0) = [0, 1] ! ([0, 1, 0] ! 1)) = ((0 :: rat) = 0) then 1 else 0) \<and>
   last [0, 1, 1 :: nat] = (if ([0, 1 :: int] ! ([0, 1, 1] ! 0) = [0, 1] ! ([0, 1, 1] ! 1)) = ((1 :: rat) = 0) then 1 else 0)"
proof -
  have u: "\<forall>k. (0 :: rat) \<le> (\<lambda>k. 0) k \<and> (\<lambda>k. 0 :: rat) k < 1" by simp
  have a: "get_constraints line_provider ([0, 1], []) [0, 1] ''rand'' (Some 1) 0 None (\<lambda>k. k) (\<lambda>k. 0)
     = Inr ([[0, 1, 0]], None)"
    by code_simp
  have b: "get_constraints line_provider ([0, 1], []) [0, 1] ''rand'' (Some 1) 1 None (\<lambda>k. k) (\<lambda>k. 0)
     = Inr ([[0, 1, 1]], None)"
    by code_simp
  have "(0 :: rat) = 0 \<or> (0 :: rat) = 1" by simp
  from get_constraints_links[OF u this a, of "[0, 1, 0]"]
  have c: "last [0, 1, 0 :: nat] = (if ([0, 1 :: int] ! ([0, 1, 0] ! 0) = [0, 1] ! ([0, 1, 0] ! 1)) = ((0 :: rat) = 0) then 1 else 0)"
    by simp
  have "(1 :: rat) = 0 \<or> (1 :: rat) = 1" by simp
  from get_constraints_links[OF u this b, of "[0, 1, 1]"]
  have d: "last [0, 1, 1 :: nat] = (if ([0, 1 :: int] ! ([0, 1, 1] ! 0) = [0, 1] ! ([0, 1, 1] ! 1)) = ((1 :: rat) = 0) then 1 else 0)"
    by simp
  from a b c d show ?thesis by blast
qed

text \<open>
  Claim C1, at the input where it fails: two points of two classes, strategy \<open>ffqs\<close>,
  budget 1. \<open>FFQS\<close> returns its three-column \<open>constraint_mat\<close> (the sibling \<open>MMFFQS\<close>
  returns \<open>constraint_mat[:,:2]\<close>), the assembler appends the link column to it, and the
  returned row has four entries.
\<close>

theorem ffqs_returns_four_columns:
  "get_constraints line_provider ([0, 1], []) [0, 1] ''ffqs'' (Some 1) 0 None (\<lambda>k. 1) (\<lambda>k. 0)
     = Inr ([[0, 1, 0, 0]], Some [[1, 0], [0, 1]])"
  by code_simp

text \<open>
  Claim C5 fails as stated: with a method name that is not known and data that \<open>pdist\<close>
  rejects, the call ends with the \<open>ValueError\<close> of \<open>pdist\<close>, so the distances are
  computed before the method name is looked at.
\<close>

theorem unknown_method_pdist_first:
  "get_constraints rejecting_provider ([0, 1], []) [0, 1] ''kmeans'' (Some 1) 0 None (\<lambda>k. k) (\<lambda>k. 0)
     = Inl ValueError"
  by code_simp

text \<open>
  Claim C5, amended: for a method name outside \<open>rand\<close>, \<open>ffqs\<close>, \<open>mmffqs\<close>, \<open>acd\<close> the call
  never returns a constraint set: it first computes \<open>pdist\<close> and fails as \<open>pdist\<close> does
  if that raises, and otherwise fails with the \<open>AssertionError\<close> of the dispatch.
\<close>

theorem unknown_method_fails:
  "method \<notin> {''rand'', ''ffqs'', ''mmffqs'', ''acd''} \<Longrightarrow>
   get_constraints P data labels method nc err_rate ms g u =
     (case pdist P data of Inl e \<Rightarrow> Inl e | Inr pv \<Rightarrow> Inl AssertionError)"
  by (auto simp: get_constraints_def dispatch_def ebind_def Let_def split: sum.splits)

theorem unknown_method_fails_witness:
  "''kmeans'' \<notin> {''rand'', ''ffqs'', ''mmffqs'', ''acd''} \<and>
   get_constraints line_provider ([0, 1], []) [0, 1] ''kmeans'' (Some 1) 0 None (\<lambda>k. k) (\<lambda>k. 0)
     = Inl AssertionError"
proof -
  have m: "''kmeans'' \<notin> {''rand'', ''ffqs'', ''mmffqs'', ''acd''}" by simp
  from unknown_method_fails[OF m, of line_provider "([0, 1], [])" "[0, 1]" "Some 1" 0 None "\<lambda>k. k" "\<lambda>k. 0"]
  show ?thesis using m by (simp add: line_provider_def)
qed

text \<open>
  Claim C6 fails as stated: a dataset of one point (hence of one class) is accepted by
  the strategy \<open>rand\<close>, which returns the pair \<open>(0, 0)\<close> with link 1 in every row.
\<close>

theorem single_point_accepted:
  "get_constraints line_provider ([0], []) [7] ''rand'' (Some 2) 0 None (\<lambda>k. k) (\<lambda>k. 0)
     = Inr ([[0, 0, 1], [0, 0, 1]], None)"
  by code_simp

text \<open>
  Claim C6, amended: \<open>get_constraints\<close> checks neither the number of points nor the
  number of classes. With the strategy \<open>rand\<close>, an integer budget \<open>n\<close> and a noise rate in
  \<open>[0, 1]\<close>, every non-empty label vector (a single point and a single class included)
  whose data \<open>pdist\<close> accepts yields a constraint set of \<open>n\<close> rows.
\<close>

theorem rand_accepts_every_nonempty_input:
  assumes "labels \<noteq> []" and "0 \<le> err_rate" and "err_rate \<le> 1" and "pdist P data = Inr pv"
  shows "\<exists>cm. get_constraints P data labels ''rand'' (Some n) err_rate ms g u = Inr (cm, None) \<and>
              length cm = n"
proof -
  let ?N = "length labels"
  let ?qm = "map (\<lambda>i. [g (0 + 2 * i) mod ?N, g (0 + 2 * i + 1) mod ?N]) [0..<n]"
  from assms(1) have N: "0 < ?N" by simp
  have d: "dispatch P data labels ''rand'' (PyInt n) ms g pv = Inr (?qm, None)"
    using N by (cases "n = 0") (simp_all add: dispatch_def randint_pairs_def ebind_def Let_def)
  have "\<exists>link. emap (true_link labels) ?qm = Inr link"
  proof (rule emap_total)
    fix x assume "x \<in> set ?qm"
    then obtain a b where "x = [a mod ?N, b mod ?N]" by auto
    with N show "\<exists>y. true_link labels x = Inr y" by (simp add: true_link_def)
  qed
  then obtain link where l: "emap (true_link labels) ?qm = Inr link" ..
  from emap_Inr[OF l] have ll: "length link = n" by simp
  from assms(2,3) have ec: "error_choice n err_rate u = Inr (map (\<lambda>k. 1 - err_rate \<le> u k) [0..<n])"
    by (simp add: error_choice_def)
  show ?thesis
    unfolding get_constraints_def Let_def
    using assms(4) d l ec ll by (simp add: ebind_def)
qed

theorem rand_accepts_every_nonempty_input_witness:
  "[7 :: int] \<noteq> [] \<and> (0 :: rat) \<le> 0 \<and> (0 :: rat) \<le> 1 \<and>
   pdist line_provider ([0], []) = Inr (line_dist [0]) \<and>
   (\<exists>cm. get_constraints line_provider ([0], []) [7] ''rand'' (Some 2) 0 None (\<lambda>k. k) (\<lambda>k. 0)
            = Inr (cm, None) \<and> length cm = 2)"
proof -
  have a: "[7 :: int] \<noteq> []" and b: "(0 :: rat) \<le> 0" and c: "(0 :: rat) \<le> 1" by simp_all
  have d: "pdist line_provider ([0], []) = Inr (line_dist [0])" by (simp add: line_provider_def)
  from rand_accepts_every_nonempty_input[OF a b c d, of 2 None "\<lambda>k. k" "\<lambda>k. 0"] a b c d
  show ?thesis by blast
qed

text \<open>
  Claim C8, where it fails: when \<open>n_constraints\<close> is omitted the budget is \<open>N/2\<close>, a float,
  and every strategy uses it as the dimension of an array, which numpy refuses. No call
  with the default budget returns a constraint matrix.
\<close>

theorem default_budget_never_returns:
  "isl (get_constraints P data labels method None err_rate ms g u)"
proof (cases "get_constraints P data labels method None err_rate ms g u")
  case (Inl e)
  then show ?thesis by simp
next
  case (Inr r)
  obtain cm big where "r = (cm, big)" by (cases r)
  with Inr show ?thesis by (auto elim!: get_constraintsE)
qed

subsection \<open>ACD\<close>










subsection \<open>MMFFQS at a point that differs from every neighbourhood\<close>

text \<open>
  Claim C3, at the input where it fails: five points on a line at 50, 0, 100, 25, 1 with
  classes 1, 0, 1, 1, 2, budget 5, seed point 1. FFQS finds the neighbourhoods
  \<open>{1}\<close> and \<open>{0, 2, 3}\<close> and spends the budget; the two rows of point 0 are not counted
  by MMFFQS (their first column is 0), so two queries remain. Point 4, of the third
  class, is queried against both neighbourhoods (points 1 and 3) and is answered
  "different" twice, with both rows written within the budget; its label stays 0: no
  new neighbourhood is opened, since \<open>k == num_clus\<close> is never true inside the loop
  (for every input: lemma \<open>MMFFQS_labels_subset\<close> below).
\<close>

theorem mmffqs_opens_no_neighbourhood:
  "FFQS (line_dist [50, 0, 100, 25, 1]) [1, 0, 1, 1, 2] (PyInt 5) (\<lambda>k. 1) 0
     = Inr (([[2, 1, 0], [0, 1, 0], [0, 2, 1], [3, 1, 0], [3, 0, 1]], [2, 1, 2, 2, 0]), 1) \<and>
   MMFFQS (affinity line_provider) stable_argsort (line_dist [50, 0, 100, 25, 1]) [1, 0, 1, 1, 2] (PyInt 5)
     (\<lambda>k. 1) 0
     = Inr (([[2, 1], [0, 1], [0, 2], [4, 1], [4, 3]], [2, 1, 2, 2, 0]), 1)"
  by code_simp

subsection \<open>FFQS: the scan and the loop\<close>

lemma maxl_Max: "maxl v = Max (insert 0 (set v))"
  unfolding maxl_def using Max.set_eq_fold[of 0 v] by simp

lemma nth_le_maxl: "i < length v \<Longrightarrow> v ! i \<le> maxl v"
  by (simp add: maxl_Max)

lemma maxl_le: "(\<And>x. x \<in> set v \<Longrightarrow> x \<le> b) \<Longrightarrow> maxl v \<le> b"
  by (simp add: maxl_Max)

declare ffqs_scan.simps [simp del]

text \<open>Induction over the passes of a scan that returns \<open>r\<close>.\<close>

lemma ffqs_scan_induct [consumes 1, case_names stop step]:
  assumes "ffqs_scan labels n lab new_pt c k q m = Inr r"
    and stop: "\<And>c k q m. \<not> (\<not> c \<and> k \<le> maxl lab) \<Longrightarrow> r = (c, k, q, m) \<Longrightarrow> Q c k q m"
    and step: "\<And>c k q m rep.
      \<not> c \<Longrightarrow> k \<le> maxl lab \<Longrightarrow> rep < length lab \<Longrightarrow> lab ! rep = k \<Longrightarrow>
      ffqs_scan labels n lab new_pt (labels ! new_pt = labels ! rep) (Suc k) (Suc q)
        (if q < n then m[q := [new_pt, rep, of_bool (labels ! new_pt = labels ! rep)]] else m)
        = Inr r \<Longrightarrow>
      Q (labels ! new_pt = labels ! rep) (Suc k) (Suc q)
        (if q < n then m[q := [new_pt, rep, of_bool (labels ! new_pt = labels ! rep)]] else m) \<Longrightarrow>
      Q c k q m"
  shows "Q c k q m"
  using assms(1)
proof (induction "Suc (maxl lab) - k" arbitrary: c k q m rule: less_induct)
  case less
  show ?case
  proof (cases "\<not> c \<and> k \<le> maxl lab")
    case True
    let ?hood = "where_ind (\<lambda>x. x = k) lab"
    from True less.prems obtain rep where
      rep: "0 < length ?hood" "rep = ?hood ! 0" and
      rec: "ffqs_scan labels n lab new_pt (labels ! new_pt = labels ! rep) (Suc k) (Suc q)
              (if q < n then m[q := [new_pt, rep, of_bool (labels ! new_pt = labels ! rep)]] else m)
            = Inr r"
      by (subst (asm) ffqs_scan.simps) (auto simp: Let_def)
    from rep(1) have "?hood ! 0 \<in> set ?hood" by (rule nth_mem)
    with rep(2) have "rep \<in> set ?hood" by (simp only:)
    then have r: "rep < length lab" "lab ! rep = k" by simp_all
    from True have d: "Suc (maxl lab) - Suc k < Suc (maxl lab) - k" by linarith
    have "Q (labels ! new_pt = labels ! rep) (Suc k) (Suc q)
        (if q < n then m[q := [new_pt, rep, of_bool (labels ! new_pt = labels ! rep)]] else m)"
      by (rule less.hyps[OF d rec])
    with True r rec show ?thesis by (rule_tac step[of c k rep q m]) simp_all
  next
    case False
    with less.prems have "r = (c, k, q, m)"
      by (subst (asm) ffqs_scan.simps) auto
    with False show ?thesis by (rule_tac stop) simp_all
  qed
qed

text \<open>
  The scan writes only rows \<open>q, \<dots>, q' - 1\<close>; it advances both counters by the same
  amount, and by at least one when there is a neighbourhood to compare with.
\<close>

lemma ffqs_scan_frame:
  assumes "ffqs_scan labels n lab new_pt c k q m = Inr (c', k', q', m')"
  shows "k \<le> k' \<and> q' = q + (k' - k) \<and> length m' = length m \<and>
         (\<forall>j. j < q \<or> q' \<le> j \<longrightarrow> m' ! j = m ! j) \<and>
         (\<not> c \<and> k \<le> maxl lab \<longrightarrow> k < k') \<and> (c' \<and> \<not> c \<longrightarrow> k < k')"
  using assms
proof (induction c k q m rule: ffqs_scan_induct)
  case (stop c k q m)
  then show ?case by auto
next
  case (step c k q m rep)
  let ?m = "if q < n then m[q := [new_pt, rep, of_bool (labels ! new_pt = labels ! rep)]] else m"
  from step.IH have
    k: "Suc k \<le> k'" and q: "q' = Suc q + (k' - Suc k)" and l: "length m' = length ?m" and
    f: "\<And>j. j < Suc q \<or> q' \<le> j \<Longrightarrow> m' ! j = ?m ! j"
    by blast+
  have "m' ! j = m ! j" if "j < q \<or> q' \<le> j" for j
  proof -
    from that q have "j \<noteq> q" by auto
    moreover from that have "m' ! j = ?m ! j" by (intro f) auto
    ultimately show ?thesis by simp
  qed
  with k q l show ?case by auto
qed

text \<open>
  A scan that ends on "same" has found a member of neighbourhood \<open>k' - 1\<close> with the
  label of the new point, and its last row, if it is within the budget, records it.
\<close>

lemma ffqs_scan_same:
  assumes "ffqs_scan labels n lab new_pt c k q m = Inr (c', k', q', m')"
    and "\<not> c" and "c'"
  shows "\<exists>rep. rep < length lab \<and> lab ! rep = k' - 1 \<and> k \<le> k' - 1 \<and>
           labels ! new_pt = labels ! rep \<and>
           (q' \<le> n \<and> q' \<le> length m \<longrightarrow> 0 < q' \<and> m' ! (q' - 1) = [new_pt, rep, 1])"
  using assms
proof (induction c k q m rule: ffqs_scan_induct)
  case (stop c k q m)
  then show ?case by simp
next
  case (step c k q m rep)
  let ?c = "labels ! new_pt = labels ! rep"
  let ?m = "if q < n then m[q := [new_pt, rep, of_bool ?c]] else m"
  have lm: "length ?m = length m" by simp
  show ?case
  proof (cases ?c)
    case True
    from step.hyps(5) True have "(c', k', q', m') = (True, Suc k, Suc q, ?m)"
      by (subst (asm) ffqs_scan.simps) simp
    then have e: "k' = Suc k" "q' = Suc q" "m' = ?m" by simp_all
    have "q' \<le> n \<and> q' \<le> length m \<longrightarrow> 0 < q' \<and> m' ! (q' - 1) = [new_pt, rep, 1]"
      using e True by simp
    with step.hyps(3,4) True e show ?thesis by (intro exI[of _ rep]) simp
  next
    case False
    from step.IH[OF False step.prems(2)] lm obtain rep' where
      r: "rep' < length lab" "lab ! rep' = k' - 1" "Suc k \<le> k' - 1"
      "labels ! new_pt = labels ! rep'"
      "q' \<le> n \<and> q' \<le> length m \<longrightarrow> 0 < q' \<and> m' ! (q' - 1) = [new_pt, rep', 1]"
      by auto
    from r(3) have "k \<le> k' - 1" by simp
    with r show ?thesis by (intro exI[of _ rep']) simp
  qed
qed

declare ffqs_loop.simps [simp del]

text \<open>A property that every pass of the outer loop preserves holds when the loop returns.\<close>

lemma ffqs_loop_invariant:
  assumes "ffqs_loop pv labels n nc s = Inr t"
    and "I s"
    and step: "\<And>s s'. I s \<Longrightarrow> quer_cnt s < n \<Longrightarrow> ffqs_iter pv labels n nc s = Inr s' \<Longrightarrow> I s'"
  shows "I t"
  using assms(1,2)
proof (induction "length (filter (\<lambda>x. x = 0) (nbr_label s))" arbitrary: s rule: less_induct)
  case less
  show ?case
  proof (cases "quer_cnt s < n \<and> \<not> found_all s")
    case True
    with less.prems(1) obtain s' where
      it: "ffqs_iter pv labels n nc s = Inr s'" and rec: "ffqs_loop pv labels n nc s' = Inr t"
      by (subst (asm) ffqs_loop.simps) (auto split: sum.splits)
    from True have "quer_cnt s < n" by simp
    from step[OF less.prems(2) this it] have "I s'" .
    from less.hyps[OF ffqs_iter_zeros[OF it] rec this] show ?thesis .
  next
    case False
    with less.prems show ?thesis by (subst (asm) ffqs_loop.simps) auto
  qed
qed

lemma FFQS_runE:
  assumes "FFQS_run pv labels b g p = Inr (s, p')"
  obtains n seed where
    "as_size b = Inr n" "seed < length labels"
    "ffqs_loop pv labels n (length (remdups labels))
       \<lparr>nbr_label = (replicate (length labels) 0)[seed := 1], quer_cnt = 0,
        constraint_mat = replicate n [0, 0, 0], found_all = False\<rparr> = Inr s"
proof -
  from assms obtain n where
    N: "labels \<noteq> []" and n: "as_size b = Inr n" and
    l: "ffqs_loop pv labels n (length (remdups labels))
       \<lparr>nbr_label = (replicate (length labels) 0)[g p mod length labels := 1], quer_cnt = 0,
        constraint_mat = replicate n [0, 0, 0], found_all = False\<rparr> = Inr s"
    unfolding FFQS_run_def Let_def randint_def
    by (auto split: if_splits)
  from N have "g p mod length labels < length labels" by simp
  from n this l show ?thesis by (rule that)
qed

lemma FFQS_E:
  assumes "FFQS pv labels b g p = Inr ((mat, lab), p')"
  obtains s where "FFQS_run pv labels b g p = Inr (s, p')" "mat = constraint_mat s" "lab = nbr_label s"
  using assms unfolding FFQS_def by auto

subsection \<open>Class purity\<close>

lemma class_pure_iff:
  "class_pure labels lab \<longleftrightarrow>
     (\<forall>i<length lab. \<forall>j<length lab. lab ! i = lab ! j \<and> lab ! i \<noteq> 0 \<longrightarrow> labels ! i = labels ! j)"
  unfolding class_pure_def list_all_iff by (simp add: Ball_def)

text \<open>Giving \<open>q\<close> the label of a point \<open>r\<close> of the same class keeps the vector pure.\<close>

lemma class_pure_join:
  assumes "class_pure labels lab" and "r < length lab" and "labels ! q = labels ! r"
  shows "class_pure labels (lab[q := lab ! r])"
  unfolding class_pure_iff
proof (intro allI impI)
  fix i j
  assume i: "i < length (lab[q := lab ! r])" and j: "j < length (lab[q := lab ! r])"
    and e: "lab[q := lab ! r] ! i = lab[q := lab ! r] ! j \<and> lab[q := lab ! r] ! i \<noteq> 0"
  define i' where "i' = (if i = q then r else i)"
  define j' where "j' = (if j = q then r else j)"
  from i j assms(2) have l: "i' < length lab" "j' < length lab" by (simp_all add: i'_def j'_def)
  from i j have v: "lab[q := lab ! r] ! i = lab ! i'" "lab[q := lab ! r] ! j = lab ! j'"
    by (simp_all add: i'_def j'_def nth_list_update)
  from assms(3) have c: "labels ! i = labels ! i'" "labels ! j = labels ! j'"
    by (simp_all add: i'_def j'_def)
  from assms(1) have P: "\<And>a b. a < length lab \<Longrightarrow> b < length lab \<Longrightarrow> lab ! a = lab ! b \<Longrightarrow>
      lab ! a \<noteq> 0 \<Longrightarrow> labels ! a = labels ! b"
    unfolding class_pure_iff by blast
  from e v have "lab ! i' = lab ! j'" "lab ! i' \<noteq> 0" by simp_all
  from P[OF l this] c show "labels ! i = labels ! j" by simp
qed

text \<open>Giving a point a label that no point carries keeps the vector pure.\<close>

lemma class_pure_fresh:
  assumes "class_pure labels lab" and "\<forall>i<length lab. lab ! i \<noteq> v"
  shows "class_pure labels (lab[q := v])"
  unfolding class_pure_iff
proof (intro allI impI)
  fix i j
  assume i: "i < length (lab[q := v])" and j: "j < length (lab[q := v])"
    and e: "lab[q := v] ! i = lab[q := v] ! j \<and> lab[q := v] ! i \<noteq> 0"
  from i j have l: "i < length lab" "j < length lab" by simp_all
  from assms(1) have P: "\<And>a b. a < length lab \<Longrightarrow> b < length lab \<Longrightarrow> lab ! a = lab ! b \<Longrightarrow>
      lab ! a \<noteq> 0 \<Longrightarrow> labels ! a = labels ! b"
    unfolding class_pure_iff by blast
  from assms(2) l have ne: "lab ! i \<noteq> v" "lab ! j \<noteq> v" by simp_all
  show "labels ! i = labels ! j"
  proof (cases "i = q")
    case True
    with l e have "lab[q := v] ! j = v" by simp
    with ne(2) l have "j = q" by (cases "j = q") simp_all
    with True show ?thesis by simp
  next
    case False
    with l e have a: "lab[q := v] ! j = lab ! i" "lab ! i \<noteq> 0" by simp_all
    with ne(1) l have "j \<noteq> q" by (cases "j = q") simp_all
    with a have "lab ! i = lab ! j" by simp
    from P[OF l this a(2)] show ?thesis .
  qed
qed

lemma ffqs_iter_pure:
  assumes "class_pure labels (nbr_label s)" and "ffqs_iter pv labels n nc s = Inr s'"
  shows "class_pure labels (nbr_label s')"
proof -
  let ?lab = "nbr_label s"
  from assms(2) obtain new_pt c k q m where
    np: "new_pt < length ?lab" "?lab ! new_pt = 0" and
    sc: "ffqs_scan labels n ?lab new_pt False 1 (quer_cnt s) (constraint_mat s) = Inr (c, k, q, m)" and
    s': "nbr_label s' = (if c then ?lab[new_pt := k - 1] else ?lab[new_pt := maxl ?lab + 1])"
    by (rule ffqs_iterE) simp
  show ?thesis
  proof (cases c)
    case True
    with ffqs_scan_same[OF sc] obtain rep where
      r: "rep < length ?lab" "?lab ! rep = k - 1" "labels ! new_pt = labels ! rep"
      by auto
    from class_pure_join[OF assms(1) r(1,3)] r(2) s' True show ?thesis by simp
  next
    case False
    have "\<forall>i<length ?lab. ?lab ! i \<noteq> maxl ?lab + 1"
    proof (intro allI impI)
      fix i assume "i < length ?lab"
      from nth_le_maxl[OF this] show "?lab ! i \<noteq> maxl ?lab + 1" by simp
    qed
    from class_pure_fresh[OF assms(1) this] s' False show ?thesis by simp
  qed
qed

lemma class_pure_seed: "class_pure labels ((replicate N 0)[seed := 1])"
proof (cases "seed < N")
  case True
  then show ?thesis unfolding class_pure_iff by (auto simp: nth_list_update)
next
  case False
  then show ?thesis unfolding class_pure_iff by simp
qed

lemma FFQS_run_pure:
  assumes "FFQS_run pv labels b g p = Inr (s, p')"
  shows "class_pure labels (nbr_label s)"
proof -
  from assms obtain n seed where
    l: "ffqs_loop pv labels n (length (remdups labels))
       \<lparr>nbr_label = (replicate (length labels) 0)[seed := 1], quer_cnt = 0,
        constraint_mat = replicate n [0, 0, 0], found_all = False\<rparr> = Inr s"
    by (rule FFQS_runE)
  show ?thesis
  proof (rule ffqs_loop_invariant[OF l, where I = "\<lambda>s. class_pure labels (nbr_label s)"])
    show "class_pure labels (nbr_label \<lparr>nbr_label = (replicate (length labels) 0)[seed := 1],
        quer_cnt = 0, constraint_mat = replicate n [0, 0, 0], found_all = False\<rparr>)"
      using class_pure_seed[of labels "length labels" seed] by simp
  next
    fix s s' assume "class_pure labels (nbr_label s)"
      "ffqs_iter pv labels n (length (remdups labels)) s = Inr s'"
    then show "class_pure labels (nbr_label s')" by (rule ffqs_iter_pure)
  qed
qed

subsection \<open>MMFFQS: the query loop and the outer loop\<close>

lemma best_in_clus_Inr:
  assumes "best_in_clus paff q cl c = Inr (sv, iv)"
  shows "iv < length cl \<and> cl ! iv = c"
proof -
  let ?ind = "where_ind (\<lambda>x. x = c) cl"
  from assms obtain sim_ind where si: "sim_ind < length ?ind" "iv = ?ind ! sim_ind"
    unfolding best_in_clus_def Let_def by auto
  from si(1) have "?ind ! sim_ind \<in> set ?ind" by (rule nth_mem)
  with si(2) have "iv \<in> set ?ind" by (simp only:)
  then show ?thesis by simp
qed

text \<open>
  In the query loop the index \<open>k\<close> stays below \<open>num_clus\<close>, so the branch
  \<open>k == num_clus\<close> is never taken: a label changes only by taking the label of a
  point of the same class.
\<close>

lemma mmffqs_query_pure:
  assumes "mmffqs_query labels n clus q rs k (cl, qc, mat) = Inr (cl', qc', mat')"
    and "k + length rs \<le> length clus"
    and "\<forall>r\<in>set rs. r < length cl"
    and "class_pure labels cl"
  shows "class_pure labels cl'"
  using assms
proof (induction rs arbitrary: k qc mat)
  case Nil
  then show ?case by (simp split: if_splits)
next
  case (Cons r rs)
  let ?link = "labels ! q = labels ! r"
  let ?mat = "mat[qc := [q, r, of_bool ?link]]"
  from Cons.prems(1) have inb: "\<not> length mat \<le> qc"
    by (auto simp: Let_def split: if_splits)
  from Cons.prems(2) have k: "k \<noteq> length clus" by simp
  from Cons.prems(3) have r: "r < length cl" by simp
  show ?case
  proof (cases ?link)
    case True
    with Cons.prems(1) inb have "cl' = cl[q := cl ! r]" by (simp add: Let_def)
    with class_pure_join[OF Cons.prems(4) r True] show ?thesis by simp
  next
    case False
    show ?thesis
    proof (cases "Suc qc = n")
      case True
      with Cons.prems(1) inb False k have "cl' = cl" by (simp add: Let_def)
      with Cons.prems(4) show ?thesis by simp
    next
      case ne: False
      with Cons.prems(1) inb False k have
        rec: "mmffqs_query labels n clus q rs (Suc k) (cl, Suc qc, ?mat) = Inr (cl', qc', mat')"
        by (simp add: Let_def)
      from Cons.prems(2) have "Suc k + length rs \<le> length clus" by simp
      moreover from Cons.prems(3) have "\<forall>r\<in>set rs. r < length cl" by simp
      ultimately show ?thesis using Cons.IH[OF rec] Cons.prems(4) by blast
    qed
  qed
qed

text \<open>What a returning pass of the MMFFQS loop has computed.\<close>

lemma mmffqs_iterE:
  assumes "mmffqs_iter paff srt labels n clus g s = Inr s'"
  obtains q p' best ind_vec' cl qc mat where
    "emap (best_in_clus paff q (clus_label s)) clus = Inr best"
    "emap (idx (map snd best)) (srt (map uminus (map fst best))) = Inr ind_vec'"
    "mmffqs_query labels n clus q (take (length clus) ind_vec') 0
       (clus_label s, query_cnt s, mm_constraint_mat s) = Inr (cl, qc, mat)"
    "s' = \<lparr>clus_label = cl, query_cnt = qc, mm_constraint_mat = mat,
           skeleton_ind = skeleton_ind s @ [q], rng_pos = p'\<rparr>"
proof -
  from assms obtain qp best ind_vec' r where
    b: "emap (best_in_clus paff (fst qp) (clus_label s)) clus = Inr best" and
    i: "emap (idx (map snd best)) (srt (map uminus (map fst best))) = Inr ind_vec'" and
    q: "mmffqs_query labels n clus (fst qp) (take (length clus) ind_vec') 0
       (clus_label s, query_cnt s, mm_constraint_mat s) = Inr r" and
    s': "(case r of (cl, qc, mat) \<Rightarrow>
           Inr \<lparr>clus_label = cl, query_cnt = qc, mm_constraint_mat = mat,
                skeleton_ind = skeleton_ind s @ [fst qp], rng_pos = snd qp\<rparr>) = Inr s'"
    unfolding mmffqs_iter_def Let_def
    by (auto simp del: mmffqs_query.simps split: prod.splits)
  obtain cl qc mat where r: "r = (cl, qc, mat)" by (cases r)
  from s' r have "s' = \<lparr>clus_label = cl, query_cnt = qc, mm_constraint_mat = mat,
           skeleton_ind = skeleton_ind s @ [fst qp], rng_pos = snd qp\<rparr>" by simp
  with b i q r show ?thesis by (rule_tac that) simp_all
qed

text \<open>The representatives that the query loop reads are points of the dataset.\<close>

lemma mmffqs_reps_in_range:
  assumes b: "emap (best_in_clus paff q cl) clus = Inr best"
    and i: "emap (idx (map snd best)) sort_ind = Inr ind_vec'"
  shows "\<forall>r\<in>set (take (length clus) ind_vec'). r < length cl"
proof
  fix r assume "r \<in> set (take (length clus) ind_vec')"
  then have "r \<in> set ind_vec'" by (rule in_set_takeD)
  then obtain j where j: "j < length ind_vec'" and r: "r = ind_vec' ! j"
    by (auto simp: in_set_conv_nth)
  from emap_Inr[OF i] j have "idx (map snd best) (sort_ind ! j) = Inr (ind_vec' ! j)" by simp
  then have k: "sort_ind ! j < length best" and v: "ind_vec' ! j = snd (best ! (sort_ind ! j))"
    by simp_all
  from emap_Inr[OF b] k have
    "best_in_clus paff q cl (clus ! (sort_ind ! j)) = Inr (best ! (sort_ind ! j))" by simp
  then have "best_in_clus paff q cl (clus ! (sort_ind ! j))
      = Inr (fst (best ! (sort_ind ! j)), snd (best ! (sort_ind ! j)))" by simp
  from best_in_clus_Inr[OF this] r v show "r < length cl" by simp
qed

lemma mmffqs_iter_pure:
  assumes "class_pure labels (clus_label s)" and "mmffqs_iter paff srt labels n clus g s = Inr s'"
  shows "class_pure labels (clus_label s')"
proof -
  from assms(2) obtain q best ind_vec' cl qc mat where
    b: "emap (best_in_clus paff q (clus_label s)) clus = Inr best" and
    i: "emap (idx (map snd best)) (srt (map uminus (map fst best))) = Inr ind_vec'" and
    qr: "mmffqs_query labels n clus q (take (length clus) ind_vec') 0
       (clus_label s, query_cnt s, mm_constraint_mat s) = Inr (cl, qc, mat)" and
    s': "clus_label s' = cl"
    by (rule mmffqs_iterE) simp
  have len: "0 + length (take (length clus) ind_vec') \<le> length clus" by simp
  note rng = mmffqs_reps_in_range[OF b i]
  from mmffqs_query_pure[OF qr len rng assms(1)] s' show ?thesis by simp
qed

declare mmffqs_loop.simps [simp del]

lemma mmffqs_loop_invariant:
  assumes "mmffqs_loop paff srt labels n clus g s = Inr t"
    and "I s"
    and step: "\<And>s s'. I s \<Longrightarrow> query_cnt s < n \<Longrightarrow> mmffqs_iter paff srt labels n clus g s = Inr s' \<Longrightarrow> I s'"
  shows "I t"
  using assms(1,2)
proof (induction "n - query_cnt s" arbitrary: s rule: less_induct)
  case less
  show ?case
  proof (cases "query_cnt s < n")
    case True
    with less.prems(1) obtain s' where
      it: "mmffqs_iter paff srt labels n clus g s = Inr s'" and
      pr: "query_cnt s < query_cnt s'" and
      rec: "mmffqs_loop paff srt labels n clus g s' = Inr t"
      by (subst (asm) mmffqs_loop.simps) (auto split: sum.splits if_splits)
    from step[OF less.prems(2) True it] have "I s'" .
    moreover from True pr have "n - query_cnt s' < n - query_cnt s" by linarith
    ultimately show ?thesis using less.hyps rec by blast
  next
    case False
    with less.prems show ?thesis by (subst (asm) mmffqs_loop.simps) auto
  qed
qed

lemma MMFFQS_pure:
  assumes "MMFFQS aff srt pv labels b g p = Inr ((mat, lab), p')"
  shows "class_pure labels lab"
proof -
  from assms obtain cmat cl p1 n s where
    f: "FFQS pv labels b g p = Inr ((cmat, cl), p1)" and
    l: "mmffqs_loop (aff pv) srt labels n (sort (remdups (filter (\<lambda>x. x \<noteq> 0) cl))) g
          \<lparr>clus_label = cl, query_cnt = length (map (take 2) (filter (\<lambda>r. r ! 0 \<noteq> 0) cmat)),
           mm_constraint_mat = cmat,
           skeleton_ind = sort (remdups (concat (map (take 2) (filter (\<lambda>r. r ! 0 \<noteq> 0) cmat)))),
           rng_pos = p1\<rparr> = Inr s" and
    lab: "lab = clus_label s"
    unfolding MMFFQS_def Let_def by (auto split: prod.splits)
  from f obtain s0 where "FFQS_run pv labels b g p = Inr (s0, p1)" "cl = nbr_label s0"
    by (rule FFQS_E)
  with FFQS_run_pure have pure: "class_pure labels cl" by blast
  have "class_pure labels (clus_label s)"
  proof (rule mmffqs_loop_invariant[OF l, where I = "\<lambda>s. class_pure labels (clus_label s)"])
    show "class_pure labels (clus_label \<lparr>clus_label = cl,
           query_cnt = length (map (take 2) (filter (\<lambda>r. r ! 0 \<noteq> 0) cmat)),
           mm_constraint_mat = cmat,
           skeleton_ind = sort (remdups (concat (map (take 2) (filter (\<lambda>r. r ! 0 \<noteq> 0) cmat)))),
           rng_pos = p1\<rparr>)"
      using pure by simp
  next
    fix s s' assume "class_pure labels (clus_label s)"
      "mmffqs_iter (aff pv) srt labels n (sort (remdups (filter (\<lambda>x. x \<noteq> 0) cl))) g s = Inr s'"
    then show "class_pure labels (clus_label s')" by (rule mmffqs_iter_pure)
  qed
  with lab show ?thesis by simp
qed

text \<open>
  Claim C10. The label vectors that \<open>FFQS\<close> and \<open>MMFFQS\<close> return are class-pure, and so
  is the vector after every pass of either loop when it was before the pass (the
  vector FFQS starts from has the seed as its only labelled point): a point takes an
  existing label only from a point whose true label equals its own.
\<close>

theorem neighbourhood_labels_class_pure:
  "(FFQS pv labels b g p = Inr ((mat, lab), p') \<longrightarrow> class_pure labels lab) \<and>
   (MMFFQS aff srt pv labels b g p = Inr ((cmat, cl), pm) \<longrightarrow> class_pure labels cl) \<and>
   (class_pure labels (nbr_label s) \<and> ffqs_iter pv labels n nc s = Inr s'
      \<longrightarrow> class_pure labels (nbr_label s')) \<and>
   (class_pure labels (clus_label t) \<and> mmffqs_iter paff srt labels n clus g t = Inr t'
      \<longrightarrow> class_pure labels (clus_label t'))"
proof (intro conjI impI)
  assume "FFQS pv labels b g p = Inr ((mat, lab), p')"
  then obtain s0 where "FFQS_run pv labels b g p = Inr (s0, p')" "lab = nbr_label s0"
    by (rule FFQS_E)
  with FFQS_run_pure show "class_pure labels lab" by blast
next
  assume "MMFFQS aff srt pv labels b g p = Inr ((cmat, cl), pm)"
  then show "class_pure labels cl" by (rule MMFFQS_pure)
next
  assume "class_pure labels (nbr_label s) \<and> ffqs_iter pv labels n nc s = Inr s'"
  then show "class_pure labels (nbr_label s')" by (blast intro: ffqs_iter_pure)
next
  assume "class_pure labels (clus_label t) \<and> mmffqs_iter paff srt labels n clus g t = Inr t'"
  then show "class_pure labels (clus_label t')" by (blast intro: mmffqs_iter_pure)
qed

theorem neighbourhood_labels_class_pure_witness:
  "FFQS (line_dist [50, 0, 100, 25, 1]) [1, 0, 1, 1, 2] (PyInt 5) (\<lambda>k. 1) 0
     = Inr (([[2, 1, 0], [0, 1, 0], [0, 2, 1], [3, 1, 0], [3, 0, 1]], [2, 1, 2, 2, 0]), 1) \<and>
   MMFFQS (affinity line_provider) stable_argsort (line_dist [50, 0, 100, 25, 1]) [1, 0, 1, 1, 2] (PyInt 5)
     (\<lambda>k. 1) 0
     = Inr (([[2, 1], [0, 1], [0, 2], [4, 1], [4, 3]], [2, 1, 2, 2, 0]), 1) \<and>
   class_pure [1, 0, 1, 1, 2] [2, 1, 2, 2, 0] \<and>
   class_pure [1, 0, 1, 1, 2] [0, 1, 0, 0, 0] \<and>
   ffqs_iter (line_dist [50, 0, 100, 25, 1]) [1, 0, 1, 1, 2] 5 3
     \<lparr>nbr_label = [0, 1, 0, 0, 0], quer_cnt = 0,
      constraint_mat = [[0, 0, 0], [0, 0, 0], [0, 0, 0], [0, 0, 0], [0, 0, 0]], found_all = False\<rparr>
     = Inr \<lparr>nbr_label = [0, 1, 2, 0, 0], quer_cnt = 1,
            constraint_mat = [[2, 1, 0], [0, 0, 0], [0, 0, 0], [0, 0, 0], [0, 0, 0]],
            found_all = False\<rparr> \<and>
   class_pure [1, 0, 1, 1, 2] [0, 1, 2, 0, 0] \<and>
   mmffqs_iter (affinity line_provider (line_dist [50, 0, 100, 25, 1])) stable_argsort [1, 0, 1, 1, 2] 5 [1, 2]
     (\<lambda>k. 1)
     \<lparr>clus_label = [2, 1, 2, 2, 0], query_cnt = 3,
      mm_constraint_mat = [[2, 1, 0], [0, 1, 0], [0, 2, 1], [3, 1, 0], [3, 0, 1]],
      skeleton_ind = [0, 1, 2, 3], rng_pos = 1\<rparr>
     = Inr \<lparr>clus_label = [2, 1, 2, 2, 0], query_cnt = 5,
            mm_constraint_mat = [[2, 1, 0], [0, 1, 0], [0, 2, 1], [4, 1, 0], [4, 3, 0]],
            skeleton_ind = [0, 1, 2, 3, 4], rng_pos = 1\<rparr>"
proof -
  let ?pv = "line_dist [50, 0, 100, 25, 1]"
  let ?labels = "[1, 0, 1, 1, 2] :: int list"
  let ?s = "\<lparr>nbr_label = [0, 1, 0, 0, 0], quer_cnt = 0,
      constraint_mat = [[0, 0, 0], [0, 0, 0], [0, 0, 0], [0, 0, 0], [0, 0, 0]], found_all = False\<rparr>"
  let ?s' = "\<lparr>nbr_label = [0, 1, 2, 0, 0], quer_cnt = 1,
            constraint_mat = [[2, 1, 0], [0, 0, 0], [0, 0, 0], [0, 0, 0], [0, 0, 0]],
            found_all = False\<rparr>"
  let ?t = "\<lparr>clus_label = [2, 1, 2, 2, 0], query_cnt = 3,
      mm_constraint_mat = [[2, 1, 0], [0, 1, 0], [0, 2, 1], [3, 1, 0], [3, 0, 1]],
      skeleton_ind = [0, 1, 2, 3], rng_pos = 1\<rparr>"
  let ?t' = "\<lparr>clus_label = [2, 1, 2, 2, 0], query_cnt = 5,
            mm_constraint_mat = [[2, 1, 0], [0, 1, 0], [0, 2, 1], [4, 1, 0], [4, 3, 0]],
            skeleton_ind = [0, 1, 2, 3, 4], rng_pos = 1\<rparr>"
  have f: "FFQS ?pv ?labels (PyInt 5) (\<lambda>k. 1) 0
     = Inr (([[2, 1, 0], [0, 1, 0], [0, 2, 1], [3, 1, 0], [3, 0, 1]], [2, 1, 2, 2, 0]), 1)"
    by code_simp
  have m: "MMFFQS (affinity line_provider) stable_argsort ?pv ?labels (PyInt 5) (\<lambda>k. 1) 0
     = Inr (([[2, 1], [0, 1], [0, 2], [4, 1], [4, 3]], [2, 1, 2, 2, 0]), 1)"
    by code_simp
  have i: "ffqs_iter ?pv ?labels 5 3 ?s = Inr ?s'"
    by code_simp
  have j: "mmffqs_iter (affinity line_provider ?pv) stable_argsort ?labels 5 [1, 2] (\<lambda>k. 1) ?t = Inr ?t'"
    by code_simp
  have c0: "class_pure ?labels [0, 1, 0, 0, 0]" by code_simp
  from neighbourhood_labels_class_pure[where pv = ?pv and labels = ?labels and b = "PyInt 5"
      and g = "\<lambda>k. 1" and p = 0 and aff = "affinity line_provider" and s = ?s and s' = ?s'
      and n = 5 and nc = 3 and t = ?t and t' = ?t' and clus = "[1, 2]"
      and paff = "affinity line_provider ?pv" and srt = stable_argsort and lab = "[2, 1, 2, 2, 0]" and cl = "[2, 1, 2, 2, 0]"
      and mat = "[[2, 1, 0], [0, 1, 0], [0, 2, 1], [3, 1, 0], [3, 0, 1]]" and p' = 1
      and cmat = "[[2, 1], [0, 1], [0, 2], [4, 1], [4, 3]]" and pm = 1]
    f m i j c0
  have "class_pure ?labels [2, 1, 2, 2, 0]" "class_pure ?labels [0, 1, 2, 0, 0]"
    by simp_all
  with f m i j c0 show ?thesis by blast
qed

subsection \<open>FFQS: unused rows, number of neighbourhoods, recorded answers\<close>

text \<open>The frame of one pass, with the scan started as the pass starts it.\<close>

lemma ffqs_iter_frame:
  assumes "ffqs_iter pv labels n nc s = Inr s'"
  obtains new_pt c k where
    "new_pt < length (nbr_label s)" "nbr_label s ! new_pt = 0"
    "ffqs_scan labels n (nbr_label s) new_pt False 1 (quer_cnt s) (constraint_mat s)
       = Inr (c, k, quer_cnt s', constraint_mat s')"
    "nbr_label s' = (nbr_label s)[new_pt := (if c then k - 1 else maxl (nbr_label s) + 1)]"
    "1 \<le> k" "c \<longrightarrow> 1 < k"
    "quer_cnt s' = quer_cnt s + (k - 1)"
    "1 \<le> maxl (nbr_label s) \<longrightarrow> quer_cnt s < quer_cnt s'"
    "length (constraint_mat s') = length (constraint_mat s)"
    "\<forall>j. j < quer_cnt s \<or> quer_cnt s' \<le> j \<longrightarrow> constraint_mat s' ! j = constraint_mat s ! j"
proof -
  from assms obtain new_pt c k q m where
    np: "new_pt < length (nbr_label s)" "nbr_label s ! new_pt = 0" and
    sc: "ffqs_scan labels n (nbr_label s) new_pt False 1 (quer_cnt s) (constraint_mat s) = Inr (c, k, q, m)" and
    s': "nbr_label s' = (if c then (nbr_label s)[new_pt := k - 1]
                         else (nbr_label s)[new_pt := maxl (nbr_label s) + 1])"
        "quer_cnt s' = q" "constraint_mat s' = m"
    by (rule ffqs_iterE) simp
  note fr = ffqs_scan_frame[OF sc]
  from fr have f1: "1 \<le> k" by blast
  from fr have f2: "q = quer_cnt s + (k - 1)" by blast
  from fr have f3: "length m = length (constraint_mat s)" by blast
  from fr have f4: "\<forall>j. j < quer_cnt s \<or> q \<le> j \<longrightarrow> m ! j = constraint_mat s ! j" by blast
  from fr have f5: "1 \<le> maxl (nbr_label s) \<longrightarrow> 1 < k" by blast
  from fr have f6: "c \<longrightarrow> 1 < k" by blast
  from f2 f5 have pr: "1 \<le> maxl (nbr_label s) \<longrightarrow> quer_cnt s < q" by auto
  have l: "nbr_label s' = (nbr_label s)[new_pt := (if c then k - 1 else maxl (nbr_label s) + 1)]"
    using s'(1) by simp
  show ?thesis
  proof (rule that[of new_pt c k])
    show "ffqs_scan labels n (nbr_label s) new_pt False 1 (quer_cnt s) (constraint_mat s)
       = Inr (c, k, quer_cnt s', constraint_mat s')" using sc s' by simp
    show "quer_cnt s' = quer_cnt s + (k - 1)" using f2 s' by simp
    show "1 \<le> maxl (nbr_label s) \<longrightarrow> quer_cnt s < quer_cnt s'" using pr s' by simp
    show "length (constraint_mat s') = length (constraint_mat s)" using f3 s' by simp
    show "\<forall>j. j < quer_cnt s \<or> quer_cnt s' \<le> j \<longrightarrow> constraint_mat s' ! j = constraint_mat s ! j"
      using f4 s' by simp
  qed (fact np l f1 f6)+
qed







lemma card_nonzero_update:
  "card (set (lab[i := v]) - {0 :: nat}) \<le> Suc (card (set lab - {0}))"
proof -
  have "set (lab[i := v]) - {0} \<subseteq> insert v (set lab - {0})"
    using set_update_subset_insert[of lab i v] by auto
  then have "card (set (lab[i := v]) - {0}) \<le> card (insert v (set lab - {0}))"
    by (intro card_mono) simp_all
  also have "\<dots> \<le> Suc (card (set lab - {0}))" by (simp add: card_insert_if)
  finally show ?thesis .
qed

lemma ffqs_iter_nbr_bound:
  assumes "nbr_bound n s" and "quer_cnt s < n" and "ffqs_iter pv labels n nc s = Inr s'"
  shows "nbr_bound n s'"
proof -
  from assms(3) obtain new_pt c k where
    np: "new_pt < length (nbr_label s)" and
    l: "nbr_label s' = (nbr_label s)[new_pt := (if c then k - 1 else maxl (nbr_label s) + 1)]" and
    ck: "c \<longrightarrow> 1 < k" and
    pr: "1 \<le> maxl (nbr_label s) \<longrightarrow> quer_cnt s < quer_cnt s'"
    by (rule ffqs_iter_frame) blast
  let ?v = "if c then k - 1 else maxl (nbr_label s) + 1"
  from ck have v: "1 \<le> ?v" by auto
  from np l have "nbr_label s' ! new_pt = ?v" "new_pt < length (nbr_label s')" by simp_all
  with nth_le_maxl[of new_pt "nbr_label s'"] v have m: "1 \<le> maxl (nbr_label s')" by simp
  from assms(1) pr have "quer_cnt s < quer_cnt s'" by (simp add: nbr_bound_def)
  with assms(2) have "Suc (min (quer_cnt s) n) \<le> min (quer_cnt s') n" by simp
  moreover from assms(1) have "card (set (nbr_label s) - {0}) \<le> Suc (min (quer_cnt s) n)"
    by (simp add: nbr_bound_def)
  moreover have "card (set (nbr_label s') - {0}) \<le> Suc (card (set (nbr_label s) - {0}))"
    unfolding l by (rule card_nonzero_update)
  ultimately have "card (set (nbr_label s') - {0}) \<le> Suc (min (quer_cnt s') n)" by linarith
  with m show ?thesis by (simp add: nbr_bound_def)
qed

lemma nbr_bound_seed:
  assumes "seed < N"
  shows "nbr_bound n \<lparr>nbr_label = (replicate N 0)[seed := 1], quer_cnt = 0,
           constraint_mat = mat, found_all = False\<rparr>"
proof -
  let ?lab = "(replicate N (0 :: nat))[seed := 1]"
  from assms have "?lab ! seed = 1" "seed < length ?lab" by simp_all
  with nth_le_maxl[of seed ?lab] have m: "1 \<le> maxl ?lab" by simp
  have "card (set ?lab - {0}) \<le> Suc (card (set (replicate N (0 :: nat)) - {0}))"
    by (rule card_nonzero_update)
  also have "set (replicate N (0 :: nat)) - {0} = {}" by auto
  finally have "card (set ?lab - {0}) \<le> Suc 0" by simp
  with m show ?thesis by (simp add: nbr_bound_def)
qed







subsection \<open>MMFFQS: no new neighbourhood, no endless loop\<close>

text \<open>
  Every pass of the query loop issues a query when there is a neighbourhood to ask, and
  the labels it leaves are labels that were in use before.
\<close>

lemma mmffqs_query_labels:
  assumes "mmffqs_query labels n clus q rs k (cl, qc, mat) = Inr (cl', qc', mat')"
    and "k + length rs \<le> length clus"
    and "\<forall>r\<in>set rs. r < length cl"
  shows "set cl' \<subseteq> set cl \<and> qc \<le> qc' \<and> (k < length clus \<longrightarrow> qc < qc')"
  using assms
proof (induction rs arbitrary: k qc mat)
  case Nil
  then show ?case by (simp split: if_splits)
next
  case (Cons r rs)
  let ?link = "labels ! q = labels ! r"
  let ?mat = "mat[qc := [q, r, of_bool ?link]]"
  from Cons.prems(1) have inb: "\<not> length mat \<le> qc"
    by (auto simp: Let_def split: if_splits)
  from Cons.prems(2) have k: "k \<noteq> length clus" by simp
  from Cons.prems(3) have r: "r < length cl" by simp
  show ?case
  proof (cases ?link)
    case True
    with Cons.prems(1) inb have e: "cl' = cl[q := cl ! r]" "qc' = Suc qc" by (simp_all add: Let_def)
    from r have "set (cl[q := cl ! r]) \<subseteq> set cl"
      using set_update_subset_insert[of cl q "cl ! r"] by auto
    with e show ?thesis by simp
  next
    case False
    show ?thesis
    proof (cases "Suc qc = n")
      case True
      with Cons.prems(1) inb False k have "cl' = cl" "qc' = Suc qc" by (simp_all add: Let_def)
      then show ?thesis by simp
    next
      case ne: False
      with Cons.prems(1) inb False k have
        rec: "mmffqs_query labels n clus q rs (Suc k) (cl, Suc qc, ?mat) = Inr (cl', qc', mat')"
        by (simp add: Let_def)
      from Cons.prems(2) have "Suc k + length rs \<le> length clus" by simp
      moreover from Cons.prems(3) have "\<forall>r\<in>set rs. r < length cl" by simp
      ultimately have "set cl' \<subseteq> set cl \<and> Suc qc \<le> qc'" using Cons.IH[OF rec] by blast
      then show ?thesis by simp
    qed
  qed
qed

lemma mmffqs_iter_labels:
  assumes "mmffqs_iter paff srt labels n clus g s = Inr s'"
  shows "set (clus_label s') \<subseteq> set (clus_label s) \<and>
         (clus \<noteq> [] \<longrightarrow> query_cnt s < query_cnt s')"
proof -
  from assms obtain q best ind_vec' cl qc mat where
    b: "emap (best_in_clus paff q (clus_label s)) clus = Inr best" and
    i: "emap (idx (map snd best)) (srt (map uminus (map fst best))) = Inr ind_vec'" and
    qr: "mmffqs_query labels n clus q (take (length clus) ind_vec') 0
       (clus_label s, query_cnt s, mm_constraint_mat s) = Inr (cl, qc, mat)" and
    s': "clus_label s' = cl" "query_cnt s' = qc"
    by (rule mmffqs_iterE) simp
  have len: "0 + length (take (length clus) ind_vec') \<le> length clus" by simp
  note rng = mmffqs_reps_in_range[OF b i]
  have "clus \<noteq> [] \<longrightarrow> 0 < length clus" by simp
  with mmffqs_query_labels[OF qr len rng] s' show ?thesis by blast
qed

text \<open>
  The second phase of \<open>MMFFQS\<close> assigns no label that \<open>FFQS\<close> has not assigned: it
  never opens a neighbourhood.
\<close>

lemma MMFFQS_labels_subset:
  assumes "FFQS pv labels b g p = Inr ((mat, lab), p')"
    and "MMFFQS aff srt pv labels b g p = Inr ((cmat, cl), pm)"
  shows "set cl \<subseteq> set lab"
proof -
  from assms obtain n s where
    l: "mmffqs_loop (aff pv) srt labels n (sort (remdups (filter (\<lambda>x. x \<noteq> 0) lab))) g
          \<lparr>clus_label = lab, query_cnt = length (map (take 2) (filter (\<lambda>r. r ! 0 \<noteq> 0) mat)),
           mm_constraint_mat = mat,
           skeleton_ind = sort (remdups (concat (map (take 2) (filter (\<lambda>r. r ! 0 \<noteq> 0) mat)))),
           rng_pos = p'\<rparr> = Inr s" and
    cl: "cl = clus_label s"
    unfolding MMFFQS_def Let_def by (auto split: prod.splits)
  have "set (clus_label s) \<subseteq> set lab"
  proof (rule mmffqs_loop_invariant[OF l, where I = "\<lambda>s. set (clus_label s) \<subseteq> set lab"])
    show "set (clus_label \<lparr>clus_label = lab,
           query_cnt = length (map (take 2) (filter (\<lambda>r. r ! 0 \<noteq> 0) mat)),
           mm_constraint_mat = mat,
           skeleton_ind = sort (remdups (concat (map (take 2) (filter (\<lambda>r. r ! 0 \<noteq> 0) mat)))),
           rng_pos = p'\<rparr>) \<subseteq> set lab"
      by simp
  next
    fix s s' assume "set (clus_label s) \<subseteq> set lab"
      "mmffqs_iter (aff pv) srt labels n (sort (remdups (filter (\<lambda>x. x \<noteq> 0) lab))) g s = Inr s'"
    with mmffqs_iter_labels show "set (clus_label s') \<subseteq> set lab" by blast
  qed
  with cl show ?thesis by simp
qed

text \<open>
  With at least one neighbourhood the loop of \<open>MMFFQS\<close> ends: it never takes the
  outcome \<open>Diverges\<close> on its own account.
\<close>

lemma mmffqs_loop_ends:
  assumes "clus \<noteq> []" and "\<And>s. mmffqs_iter paff srt labels n clus g s \<noteq> Inl Diverges"
  shows "mmffqs_loop paff srt labels n clus g s \<noteq> Inl Diverges"
proof (induction "n - query_cnt s" arbitrary: s rule: less_induct)
  case less
  show ?case
  proof (cases "query_cnt s < n")
    case True
    show ?thesis
    proof (cases "mmffqs_iter paff srt labels n clus g s")
      case (Inl e)
      with assms(2)[of s] have "e \<noteq> Diverges" by auto
      with True Inl show ?thesis by (subst mmffqs_loop.simps) simp
    next
      case (Inr s')
      from mmffqs_iter_labels[OF Inr] assms(1) have pr: "query_cnt s < query_cnt s'" by simp
      with True have "n - query_cnt s' < n - query_cnt s" by linarith
      from less.hyps[OF this] True Inr pr show ?thesis by (subst mmffqs_loop.simps) simp
    qed
  next
    case False
    then show ?thesis by (subst mmffqs_loop.simps) simp
  qed
qed

subsection \<open>The strategies return or raise\<close>

lemma ends_Inr [simp]: "ends (Inr x)"
  by (simp add: ends_def)

lemma ends_Inl [simp]: "ends (Inl e) \<longleftrightarrow> e \<noteq> Diverges"
  by (simp add: ends_def)

lemma ends_ebind:
  "ends m \<Longrightarrow> (\<And>x. m = Inr x \<Longrightarrow> ends (f x)) \<Longrightarrow> ends (ebind m f)"
  by (cases m) (simp_all add: ebind_def)

lemma ends_idx [simp]: "ends (idx xs i)"
  by (simp add: idx_def)

lemma ends_argmax [simp]: "ends (argmax xs)"
  by (simp add: argmax_def split: list.splits)

lemma ends_argmin [simp]: "ends (argmin xs)"
  by (simp add: argmin_def split: list.splits)

lemma ends_amin0 [simp]: "ends (amin0 b)"
  by (simp add: amin0_def split: list.splits)

lemma ends_amax0 [simp]: "ends (amax0 b)"
  by (simp add: amax0_def split: list.splits)

lemma ends_randint [simp]: "ends (randint N g p)"
  by (simp add: randint_def)

lemma ends_as_size [simp]: "ends (as_size b)"
  by (cases b) simp_all

lemma ends_emap: "(\<And>x. ends (f x)) \<Longrightarrow> ends (emap f xs)"
  by (induction xs) (auto intro!: ends_ebind)

lemma ends_best_in_clus [simp]: "ends (best_in_clus paff q cl c)"
  unfolding best_in_clus_def Let_def by (intro ends_ebind) simp_all

lemma ends_ffqs_scan: "ends (ffqs_scan labels n lab new_pt c k q m)"
proof (induction "Suc (maxl lab) - k" arbitrary: c k q m rule: less_induct)
  case less
  show ?case
  proof (cases "\<not> c \<and> k \<le> maxl lab")
    case True
    then have d: "Suc (maxl lab) - Suc k < Suc (maxl lab) - k" by linarith
    show ?thesis
      by (subst ffqs_scan.simps) (use True in \<open>auto simp: Let_def intro!: ends_ebind less.hyps[OF d]\<close>)
  next
    case False
    then show ?thesis by (subst ffqs_scan.simps) auto
  qed
qed

lemma ends_ffqs_iter: "ends (ffqs_iter pv labels n nc s)"
  unfolding ffqs_iter_def Let_def
  by (intro ends_ebind) (auto simp: ends_ffqs_scan)

lemma ends_ffqs_loop: "ends (ffqs_loop pv labels n nc s)"
proof (induction "length (filter (\<lambda>x. x = 0) (nbr_label s))" arbitrary: s rule: less_induct)
  case less
  show ?case
  proof (cases "quer_cnt s < n \<and> \<not> found_all s")
    case True
    show ?thesis
    proof (cases "ffqs_iter pv labels n nc s")
      case (Inl e)
      with ends_ffqs_iter[of pv labels n nc s] True show ?thesis
        by (subst ffqs_loop.simps) simp
    next
      case (Inr s')
      from less.hyps[OF ffqs_iter_zeros[OF Inr]] True Inr show ?thesis
        by (subst ffqs_loop.simps) simp
    qed
  next
    case False
    then show ?thesis by (subst ffqs_loop.simps) auto
  qed
qed

lemma ends_FFQS: "ends (FFQS pv labels b g p)"
  unfolding FFQS_def FFQS_run_def Let_def
  by (intro ends_ebind) (auto simp: ends_ffqs_loop intro!: ends_ebind)

lemma ends_mmffqs_query: "ends (mmffqs_query labels n clus q rs k st)"
proof (induction rs arbitrary: k st)
  case Nil
  show ?case by simp
next
  case (Cons r rs)
  obtain cl qc mat where "st = (cl, qc, mat)" by (cases st)
  with Cons show ?case by (simp add: Let_def)
qed

lemma ends_mmffqs_iter: "ends (mmffqs_iter paff srt labels n clus g s)"
  unfolding mmffqs_iter_def Let_def
  by (intro ends_ebind) (auto simp: ends_mmffqs_query intro!: ends_ebind ends_emap)

text \<open>
  \<open>FFQS\<close> returns a vector with a labelled point, so \<open>MMFFQS\<close> runs its loop with at
  least one neighbourhood and ends.
\<close>

lemma FFQS_has_label:
  assumes "FFQS pv labels b g p = Inr ((mat, lab), p')"
  shows "filter (\<lambda>x. x \<noteq> 0) lab \<noteq> []"
proof -
  from assms obtain s where r: "FFQS_run pv labels b g p = Inr (s, p')" and lab: "lab = nbr_label s"
    by (rule FFQS_E)
  from r obtain n seed where
    sd: "seed < length labels" and
    l: "ffqs_loop pv labels n (length (remdups labels))
       \<lparr>nbr_label = (replicate (length labels) 0)[seed := 1], quer_cnt = 0,
        constraint_mat = replicate n [0, 0, 0], found_all = False\<rparr> = Inr s"
    by (rule FFQS_runE)
  have "nbr_bound n s"
  proof (rule ffqs_loop_invariant[OF l, where I = "nbr_bound n"])
    show "nbr_bound n \<lparr>nbr_label = (replicate (length labels) 0)[seed := 1], quer_cnt = 0,
        constraint_mat = replicate n [0, 0, 0], found_all = False\<rparr>"
      by (rule nbr_bound_seed[OF sd])
  next
    fix s s' assume "nbr_bound n s" "quer_cnt s < n"
      "ffqs_iter pv labels n (length (remdups labels)) s = Inr s'"
    then show "nbr_bound n s'" by (rule ffqs_iter_nbr_bound)
  qed
  then have m: "1 \<le> maxl lab" using lab by (simp add: nbr_bound_def)
  show ?thesis
  proof
    assume "filter (\<lambda>x. x \<noteq> 0) lab = []"
    then have "\<And>x. x \<in> set lab \<Longrightarrow> x \<le> 0" by (simp add: filter_empty_conv)
    from maxl_le[OF this] m show False by simp
  qed
qed

lemma ends_MMFFQS: "ends (MMFFQS aff srt pv labels b g p)"
proof (cases "FFQS pv labels b g p")
  case (Inl e)
  with ends_FFQS[of pv labels b g p] show ?thesis
    by (simp add: MMFFQS_def Let_def ebind_def)
next
  case (Inr r)
  obtain mat lab p' where r: "r = ((mat, lab), p')" by (cases r) auto
  let ?clus = "sort (remdups (filter (\<lambda>x. x \<noteq> 0) lab))"
  have c: "?clus \<noteq> []"
  proof
    assume "?clus = []"
    then have "set ?clus = {}" by (simp only: set_empty)
    then have "set (filter (\<lambda>x. x \<noteq> 0) lab) = {}" by (simp only: set_sort set_remdups)
    then have "filter (\<lambda>x. x \<noteq> 0) lab = []" by (simp only: set_empty)
    with FFQS_has_label[OF Inr[unfolded r]] show False by contradiction
  qed
  have "ends (mmffqs_loop (aff pv) srt labels n ?clus g s)" for n s
    unfolding ends_def
    by (rule mmffqs_loop_ends[OF c]) (use ends_mmffqs_iter in \<open>simp add: ends_def\<close>)
  with Inr r show ?thesis
    unfolding MMFFQS_def Let_def
    by (auto intro!: ends_ebind)
qed

end
